theory Spec2Isabelle
  imports Complex_Main "HOL-Library.Word"
begin

section \<open>The first part of \<open>main\<close>: stream discovery and buffer size (FFMpeg.cpp, lines 82--137)\<close>

text \<open>
  The container is what the demux library reports about the file: the results of
  \<open>avformat_open_input\<close> and \<open>avformat_find_stream_info\<close>, the stream table, whether
  \<open>avcodec_find_decoder\<close> knows a codec id, and the result of \<open>avcodec_open2\<close>.
\<close>

datatype AVMediaType = AVMEDIA_TYPE_VIDEO | AVMEDIA_TYPE_AUDIO | AVMEDIA_TYPE_SUBTITLE

record AVRational =
  num :: int
  den :: int

record AVStream =
  codec_type :: AVMediaType
  codec_id :: nat
  r_frame_rate :: AVRational

record container =
  avformat_open_input :: int
  avformat_find_stream_info :: int
  streams :: "AVStream list"
  avcodec_find_decoder :: "nat \<Rightarrow> bool"
  avcodec_open2 :: int

text \<open>
  How this part can stop: a thrown string literal, a read of \<open>streams[i]\<close> with \<open>i\<close> outside the
  stream table, or a conversion of a value that \<open>unsigned int\<close> cannot hold.
\<close>

datatype abort = Thrown string | OutOfRange nat | BadCast

text \<open>
  \<open>av_q2d\<close> is \<open>num / (double) den\<close>. The value of a finite double is a rational number;
  a zero denominator gives an infinity or a NaN, which is \<open>None\<close> here.
\<close>

definition av_q2d :: "AVRational \<Rightarrow> rat option" where
  "av_q2d q = (if den q = 0 then None else Some (of_int (num q) / of_int (den q)))"

text \<open>
  The cast \<open>(unsigned int) fps\<close> of lines 125 and 137: the fractional part is discarded
  (truncation towards zero); the result is defined when the truncated value fits.
\<close>

definition trunc :: "rat \<Rightarrow> int" where
  "trunc x = (if 0 \<le> x then \<lfloor>x\<rfloor> else \<lceil>x\<rceil>)"

definition to_unsigned :: "rat \<Rightarrow> nat option" where
  "to_unsigned x = (if 0 \<le> trunc x \<and> trunc x < 2 ^ 32 then Some (nat (trunc x)) else None)"

text \<open>
  The loop of lines 94--114 over the stream table, from index \<open>i\<close>. It stops at the first
  video stream and returns \<open>videoStreamIndex\<close> and \<open>res\<close>; both are \<open>unsigned int\<close>
  variables initialised with \<open>-1\<close>. Line 101 reads \<open>hrow "cannot find video codec"\<close> in the
  source; it is taken as the \<open>throw\<close> it stands for.
\<close>

fun discover :: "container \<Rightarrow> AVStream list \<Rightarrow> 32 word \<Rightarrow> abort + (32 word \<times> 32 word)" where
  "discover c [] i = Inr (- 1, - 1)"
| "discover c (st # sts) i =
     (if codec_type st = AVMEDIA_TYPE_VIDEO then
        (if \<not> avcodec_find_decoder c (codec_id st) then Inl (Thrown ''cannot find video codec'')
         else Inr (i, word_of_int (avcodec_open2 c)))
      else discover c sts (i + 1))"

text \<open>What the start-up hands on when it succeeds: the index of the stream it chose, the
  value of \<open>fps\<close> and the number of slots, \<open>(unsigned int) fps\<close>.\<close>

record VideoParams =
  videoStreamIndex0 :: "32 word"
  frame_rate :: rat
  bufferSize0 :: nat

definition main_setup :: "container \<Rightarrow> abort + VideoParams" where
  "main_setup c =
     (if avformat_open_input c \<noteq> 0 then Inl (Thrown ''cannot load video from file!'')
      else if avformat_find_stream_info c < 0 then Inl (Thrown ''cannot find stream information!'')
      else
        (case discover c (streams c) 0 of
           Inl e \<Rightarrow> Inl e
         | Inr (videoStreamIndex, res) \<Rightarrow>
             \<comment> \<open>line 116: \<open>streams[videoStreamIndex]\<close> is read before the checks of lines 118 and 121\<close>
             (if length (streams c) \<le> unat videoStreamIndex then Inl (OutOfRange (unat videoStreamIndex))
              else
                (let fps = av_q2d (r_frame_rate (streams c ! unat videoStreamIndex)) in
                 if videoStreamIndex = - 1 then Inl (Thrown ''cannot find video stream!'')
                 else if res < 0 then Inl (Thrown ''cannot open deocder!'')
                 else
                   (case fps of
                      None \<Rightarrow> Inl BadCast
                    | Some x \<Rightarrow>
                        (case to_unsigned x of
                           None \<Rightarrow> Inl BadCast
                         | Some n \<Rightarrow>
                             Inr \<lparr>videoStreamIndex0 = videoStreamIndex, frame_rate = x,
                                  bufferSize0 = n\<rparr>))))))"

section \<open>The pipeline: Decode Worker and Presentation Loop\<close>

text \<open>
  One call of \<open>av_read_frame\<close> as the worker sees it: the return value, the stream index of
  the packet it left in \<open>packet\<close>, what \<open>avcodec_send_packet\<close> and \<open>avcodec_receive_frame\<close>
  answer for that packet, what \<open>sws_scale\<close> returns for the decoded frame (the height of
  the output, or a negative error code) and the pixel data it leaves in \<open>pFrameRGB\<close>.
  Pixel data are abstract: a number names a picture.

  \<open>picture\<close> belongs to the file, not to the calls: it is the picture the packet encodes,
  if it encodes one that can be decoded. The code never sees it. A decoder that hands out
  every picture with the packet that encodes it answers \<open>recieved = 0\<close> and \<open>rgba = k\<close>
  exactly for the packets with \<open>picture = Some k\<close>; a decoder that buffers hands pictures
  out with later packets.
\<close>

record AVRead =
  ret :: int
  stream_index :: int
  sent :: int
  recieved :: int
  scaled :: int
  rgba :: nat
  picture :: "nat option"

text \<open>A read beyond the recorded calls reports end of file and carries no picture.\<close>

definition AVERROR_EOF :: int where
  "AVERROR_EOF = - 541478725"

definition at_eof :: AVRead where
  "at_eof =
     \<lparr>ret = AVERROR_EOF, stream_index = 0, sent = 0, recieved = AVERROR_EOF, scaled = 0, rgba = 0,
      picture = None\<rparr>"

fun av_read_frame :: "AVRead list \<Rightarrow> AVRead \<times> AVRead list" where
  "av_read_frame [] = (at_eof, [])"
| "av_read_frame (p # ps) = (p, ps)"

datatype Event = Closed | Resized | Other

text \<open>
  Program points. The worker's are the lines of \<open>GetVideoFrameThread\<close> at which it touches
  shared data: the two loop tests (23, 46), the reads and decodes (25, 48), the capacity test
  (47), the slot updates (36, 59), the increments of \<open>decoded\<close> (37, 61) and the two flag
  assignments (44, 69). The Presentation Loop's are the wait for \<open>filled\<close> (151), the pacing
  test with the event poll (154), the exit test (161), the display (165) and the increment
  of \<open>read\<close> (168). The exit test \<open>!window.isOpen() || param.read == param.decoded &&
  param.ended\<close> loads two variables the worker writes, \<open>decoded\<close> and then, only if the
  comparison succeeded, \<open>ended\<close>; the two loads are two program points, \<open>M161\<close> and
  \<open>M161e\<close>, and the worker can move between them.
\<close>

datatype wloc = W23 | W25 | W36 | W37 | W44 | W46 | W47 | W48 | W59 | W61 | W69 | WReturned

datatype mloc = M151 | M154 | M161 | M161e | M165 | M168 | MReturned

text \<open>
  Modelled from the spec: the declaration of \<open>VideoContext\<close> is not among the sources, so the
  types of \<open>decoded\<close> and \<open>read\<close> are not known; following section 3 of the specification
  they are counts that never wrap, and the difference of line 47 is taken in the integers.

  The state holds the fields of \<open>param\<close>, the window, the locals of the worker (\<open>read_rc\<close> is
  its local \<open>int read\<close>, \<open>pFrameRGB\<close> the converted picture, \<open>pFormatCtx\<close> the calls of
  \<open>av_read_frame\<close> still to come), the program points, the textures handed to
  \<open>window.draw\<close> so far, and whether the process has died on a division by zero.
  A texture is \<open>None\<close> until its first \<open>update\<close>.
\<close>

record state =
  buffer :: "nat option list"
  bufferSize :: nat
  decoded :: nat
  read :: nat
  filled :: bool
  ended :: bool
  videoStreamIndex :: int
  pFormatCtx :: "AVRead list"
  isOpen :: bool
  wpc :: wloc
  read_rc :: int
  pFrameRGB :: nat
  mpc :: mloc
  shown :: "nat option list"
  fault :: bool

definition decodes :: "int \<Rightarrow> AVRead \<Rightarrow> bool" where
  "decodes vsi p \<longleftrightarrow> stream_index p = vsi \<and> sent p = 0 \<and> recieved p = 0"

text \<open>Lines 25--41 and 48--65 up to the slot update: read a packet, decode it if it is video,
  convert the frame. The code does not look at what \<open>sws_scale\<close> returns.\<close>

definition read_and_decode :: "wloc \<Rightarrow> wloc \<Rightarrow> state \<Rightarrow> state" where
  "read_and_decode store skip s =
     (case av_read_frame (pFormatCtx s) of (p, rest) \<Rightarrow>
        if decodes (videoStreamIndex s) p
        then s\<lparr>read_rc := ret p, pFormatCtx := rest, pFrameRGB := rgba p, wpc := store\<rparr>
        else s\<lparr>read_rc := ret p, pFormatCtx := rest, wpc := skip\<rparr>)"

definition GetVideoFrameThread :: "state \<Rightarrow> state" where
  "GetVideoFrameThread s =
     (case wpc s of
        W23 \<Rightarrow> if decoded s < bufferSize s \<and> read_rc s = 0 \<and> isOpen s
               then s\<lparr>wpc := W25\<rparr> else s\<lparr>wpc := W44\<rparr>
      | W25 \<Rightarrow> read_and_decode W36 W23 s
      | W36 \<Rightarrow> s\<lparr>buffer := (buffer s)[decoded s := Some (pFrameRGB s)], wpc := W37\<rparr>
      | W37 \<Rightarrow> s\<lparr>decoded := decoded s + 1, wpc := W23\<rparr>
      | W44 \<Rightarrow> s\<lparr>filled := True, wpc := W46\<rparr>
      | W46 \<Rightarrow> if read_rc s = 0 \<and> isOpen s then s\<lparr>wpc := W47\<rparr> else s\<lparr>wpc := W69\<rparr>
      | W47 \<Rightarrow> if int (decoded s) - int (read s) < int (bufferSize s)
               then s\<lparr>wpc := W48\<rparr> else s\<lparr>wpc := W46\<rparr>
      | W48 \<Rightarrow> read_and_decode W59 W46 s
      | W59 \<Rightarrow> if bufferSize s = 0 then s\<lparr>fault := True\<rparr>
               else s\<lparr>buffer := (buffer s)[decoded s mod bufferSize s := Some (pFrameRGB s)],
                       wpc := W61\<rparr>
      | W61 \<Rightarrow> s\<lparr>decoded := decoded s + 1, wpc := W46\<rparr>
      | W69 \<Rightarrow> s\<lparr>ended := True, wpc := WReturned\<rparr>
      | WReturned \<Rightarrow> s)"

text \<open>
  The Presentation Loop of \<open>main\<close>, lines 151--175. \<open>due\<close> is the outcome of the pacing test
  of line 154 and \<open>evs\<close> are the events \<open>pollEvent\<close> delivers in that round.
\<close>

definition presentation :: "bool \<Rightarrow> Event list \<Rightarrow> state \<Rightarrow> state" where
  "presentation due evs s =
     (case mpc s of
        M151 \<Rightarrow> if filled s then s\<lparr>mpc := M154\<rparr> else s
      | M154 \<Rightarrow> if due then s\<lparr>isOpen := (isOpen s \<and> Closed \<notin> set evs), mpc := M161\<rparr> else s
      | M161 \<Rightarrow> if \<not> isOpen s then s\<lparr>mpc := MReturned\<rparr>
                else if read s = decoded s then s\<lparr>mpc := M161e\<rparr> else s\<lparr>mpc := M165\<rparr>
      | M161e \<Rightarrow> if ended s then s\<lparr>mpc := MReturned\<rparr> else s\<lparr>mpc := M165\<rparr>
      | M165 \<Rightarrow> if bufferSize s = 0 then s\<lparr>fault := True\<rparr>
                else s\<lparr>shown := shown s @ [buffer s ! (read s mod bufferSize s)], mpc := M168\<rparr>
      | M168 \<Rightarrow> s\<lparr>read := read s + 1, mpc := M154\<rparr>
      | MReturned \<Rightarrow> s)"

text \<open>
  The two threads interleave at these program points; a step contains at most one access
  to a variable the other thread writes. A schedule
  says which thread moves next; a process that has died moves no more. The worker is allowed
  to move on after \<open>main\<close> has returned; statements about what the worker does with enough
  steps are about schedules that give it these steps.
\<close>

datatype action = Worker | Main bool "Event list"

definition step :: "action \<Rightarrow> state \<Rightarrow> state" where
  "step a s =
     (if fault s then s
      else case a of Worker \<Rightarrow> GetVideoFrameThread s | Main due evs \<Rightarrow> presentation due evs s)"

definition run :: "action list \<Rightarrow> state \<Rightarrow> state" where
  "run sched s = fold step sched s"

text \<open>
  The state at line 150, when the worker is started: \<open>param\<close> was zero-initialised
  (line 135) and \<open>main\<close> assigned the buffer, its size and the two flags; it never assigns
  \<open>param.videoStreamIndex\<close>, which stays 0. The worker has created the textures
  (lines 9--11) and stands before its first loop.
\<close>

definition init :: "nat \<Rightarrow> AVRead list \<Rightarrow> bool \<Rightarrow> state" where
  "init n input opened =
     \<lparr>buffer = replicate n None, bufferSize = n, decoded = 0, read = 0, filled = False,
      ended = False, videoStreamIndex = 0, pFormatCtx = input, isOpen = opened,
      wpc = W23, read_rc = 0, pFrameRGB = 0, mpc = M151, shown = [], fault = False\<rparr>"

text \<open>\<open>main\<close> returns 0 at line 175; no other exit code is produced.\<close>

definition exit_code :: "state \<Rightarrow> int option" where
  "exit_code s = (if mpc s = MReturned \<and> \<not> fault s then Some 0 else None)"

section \<open>Inputs used below\<close>

text \<open>A container whose only stream is an audio stream, and one with a single video stream
  of frame rate \<open>n / d\<close>.\<close>

definition audio_only :: container where
  "audio_only =
     \<lparr>avformat_open_input = 0, avformat_find_stream_info = 0,
      streams = [\<lparr>codec_type = AVMEDIA_TYPE_AUDIO, codec_id = 86018,
                  r_frame_rate = \<lparr>num = 0, den = 0\<rparr>\<rparr>],
      avcodec_find_decoder = (\<lambda>_. True), avcodec_open2 = 0\<rparr>"

definition film :: "int \<Rightarrow> int \<Rightarrow> container" where
  "film n d =
     \<lparr>avformat_open_input = 0, avformat_find_stream_info = 0,
      streams = [\<lparr>codec_type = AVMEDIA_TYPE_VIDEO, codec_id = 27,
                  r_frame_rate = \<lparr>num = n, den = d\<rparr>\<rparr>],
      avcodec_find_decoder = (\<lambda>_. True), avcodec_open2 = 0\<rparr>"

text \<open>A container whose first stream is audio and whose second is video at 25 frames per
  second.\<close>

definition audio_first :: container where
  "audio_first =
     \<lparr>avformat_open_input = 0, avformat_find_stream_info = 0,
      streams = [\<lparr>codec_type = AVMEDIA_TYPE_AUDIO, codec_id = 86018,
                  r_frame_rate = \<lparr>num = 0, den = 0\<rparr>\<rparr>,
                 \<lparr>codec_type = AVMEDIA_TYPE_VIDEO, codec_id = 27,
                  r_frame_rate = \<lparr>num = 25, den = 1\<rparr>\<rparr>],
      avcodec_find_decoder = (\<lambda>_. True), avcodec_open2 = 0\<rparr>"

text \<open>A container whose first stream is video at 5 frames per second and whose second is
  audio.\<close>

definition video_first :: container where
  "video_first =
     \<lparr>avformat_open_input = 0, avformat_find_stream_info = 0,
      streams = [\<lparr>codec_type = AVMEDIA_TYPE_VIDEO, codec_id = 27,
                  r_frame_rate = \<lparr>num = 5, den = 1\<rparr>\<rparr>,
                 \<lparr>codec_type = AVMEDIA_TYPE_AUDIO, codec_id = 86018,
                  r_frame_rate = \<lparr>num = 0, den = 0\<rparr>\<rparr>],
      avcodec_find_decoder = (\<lambda>_. True), avcodec_open2 = 0\<rparr>"

section \<open>What the worker is given, and the invariants of the pipeline\<close>

text \<open>
  The pictures the worker's calls hand to it when it compares stream indices with \<open>vsi\<close>: a
  call of \<open>av_read_frame\<close> yields a picture when the packet it left has stream index \<open>vsi\<close>
  and both decoder calls return 0, and the first call that does not return 0 is the last one
  the worker makes. This is what the code receives, not what the file holds.
\<close>

fun frames :: "int \<Rightarrow> AVRead list \<Rightarrow> nat list" where
  "frames vsi [] = []"
| "frames vsi (p # ps) =
     (if decodes vsi p then [rgba p] else []) @ (if ret p = 0 then frames vsi ps else [])"

text \<open>
  The specification's \<open>totalFramesAvailable\<close>, in its words: the decodable frames of the
  selected video stream that precede the end of the stream. These are the pictures encoded
  in the packets of stream \<open>selected\<close> that are read before the first failing read, however
  the decoder and the worker deal with them.
\<close>

fun pictures :: "int \<Rightarrow> AVRead list \<Rightarrow> nat list" where
  "pictures selected [] = []"
| "pictures selected (p # ps) =
     (if ret p = 0
      then (if stream_index p = selected
            then (case picture p of Some k \<Rightarrow> [k] | None \<Rightarrow> []) else [])
           @ pictures selected ps
      else [])"

definition totalFramesAvailable :: "int \<Rightarrow> AVRead list \<Rightarrow> nat" where
  "totalFramesAvailable selected input = length (pictures selected input)"

text \<open>
  A call is undelayed when the decoder, compared by the worker with stream index 0, hands
  out a picture exactly for a packet of stream 0 that was read successfully and encodes one,
  and the picture converted is that picture: nothing is held back and nothing comes out of
  the empty packet of a failing read.
\<close>

definition undelayed :: "AVRead \<Rightarrow> bool" where
  "undelayed p \<longleftrightarrow>
     (decodes 0 p \<longleftrightarrow> ret p = 0 \<and> stream_index p = 0 \<and> picture p \<noteq> None) \<and>
     (decodes 0 p \<longrightarrow> picture p = Some (rgba p))"

text \<open>The picture the worker holds between decoding it and counting it, and the pictures
  still to come.\<close>

definition pending :: "state \<Rightarrow> nat list" where
  "pending s = (if wpc s \<in> {W36, W37, W59, W61} then [pFrameRGB s] else [])"

definition coming :: "state \<Rightarrow> nat list" where
  "coming s = (if read_rc s = 0 then frames (videoStreamIndex s) (pFormatCtx s) else [])"

definition priming :: "wloc set" where
  "priming = {W23, W25, W36, W37, W44}"

definition inv_ctx :: "nat \<Rightarrow> state \<Rightarrow> bool" where
  "inv_ctx n s \<longleftrightarrow>
     bufferSize s = n \<and> length (buffer s) = n \<and> videoStreamIndex s = 0 \<and> (fault s \<longrightarrow> n = 0)"

definition inv_flags :: "bool \<Rightarrow> state \<Rightarrow> bool" where
  "inv_flags opened s \<longleftrightarrow>
     (filled s \<longleftrightarrow> wpc s \<notin> priming) \<and>
     (ended s \<longleftrightarrow> wpc s = WReturned) \<and>
     (\<not> filled s \<longrightarrow> mpc s = M151) \<and>
     (mpc s = M151 \<longrightarrow> read s = 0 \<and> shown s = [] \<and> isOpen s = opened) \<and>
     (isOpen s \<longrightarrow> opened) \<and>
     (fault s \<longrightarrow> filled s) \<and>
     (mpc s = MReturned \<longrightarrow> \<not> isOpen s \<or> ended s)"

definition inv_bound :: "state \<Rightarrow> bool" where
  "inv_bound s \<longleftrightarrow>
     decoded s \<le> read s + bufferSize s \<and>
     (wpc s \<in> {W25, W36, W37} \<longrightarrow> decoded s < bufferSize s) \<and>
     (wpc s \<in> {W48, W59, W61} \<longrightarrow> decoded s < read s + bufferSize s)"

definition inv_feed :: "AVRead list \<Rightarrow> state \<Rightarrow> bool" where
  "inv_feed input s \<longleftrightarrow>
     decoded s \<le> length (frames 0 input) \<and>
     drop (decoded s) (frames 0 input) = pending s @ coming s \<and>
     (wpc s \<in> {W25, W47, W48} \<longrightarrow> read_rc s = 0) \<and>
     (wpc s \<in> {W69, WReturned} \<and> isOpen s \<longrightarrow> read_rc s \<noteq> 0) \<and>
     (wpc s = W44 \<and> isOpen s \<longrightarrow> bufferSize s \<le> decoded s \<or> read_rc s \<noteq> 0)"

definition inv_slots :: "AVRead list \<Rightarrow> state \<Rightarrow> bool" where
  "inv_slots input s \<longleftrightarrow>
     (\<forall>i. read s \<le> i \<and> i < decoded s \<longrightarrow>
        buffer s ! (i mod bufferSize s) = Some (frames 0 input ! i)) \<and>
     (wpc s \<in> {W37, W61} \<longrightarrow> buffer s ! (decoded s mod bufferSize s) = Some (pFrameRGB s))"

definition inv :: "nat \<Rightarrow> AVRead list \<Rightarrow> bool \<Rightarrow> state \<Rightarrow> bool" where
  "inv n input opened s \<longleftrightarrow>
     inv_ctx n s \<and> inv_flags opened s \<and> inv_bound s \<and> inv_feed input s \<and> inv_slots input s"

text \<open>
  How many of its own steps the worker still needs, at most, to leave the first loop and set
  \<open>filled\<close>: four for every call of \<open>av_read_frame\<close> that can still succeed and for the
  one that fails.
\<close>

definition plen :: "state \<Rightarrow> nat" where
  "plen s = (if read_rc s = 0 then 4 * length (pFormatCtx s) + 4 else 0)"

definition priming_left :: "state \<Rightarrow> nat" where
  "priming_left s =
     (case wpc s of
        W23 \<Rightarrow> plen s + 2
      | W25 \<Rightarrow> 4 * length (pFormatCtx s) + 5
      | W36 \<Rightarrow> plen s + 4
      | W37 \<Rightarrow> plen s + 3
      | W44 \<Rightarrow> 1
      | _ \<Rightarrow> 0)"

text \<open>Packets and schedules of the examples: a video packet that decodes to picture \<open>k\<close>,
  a stream of two of them, and a run in which the window is closed after priming.\<close>

definition video_packet :: "nat \<Rightarrow> AVRead" where
  "video_packet k =
     \<lparr>ret = 0, stream_index = 0, sent = 0, recieved = 0, scaled = 1080, rgba = k,
      picture = Some k\<rparr>"

definition two_frames :: "AVRead list" where
  "two_frames = [video_packet 7, video_packet 8]"

definition close_while_streaming :: "action list" where
  "close_while_streaming =
     replicate 6 Worker @ [Main True [], Main True [Closed], Worker, Worker]"

text \<open>A packet of the video stream that the decoder rejects, and the stream of ten packets of
  which the fourth is such a packet.\<close>

definition AVERROR_INVALIDDATA :: int where
  "AVERROR_INVALIDDATA = - 1094995529"

definition broken_packet :: "nat \<Rightarrow> AVRead" where
  "broken_packet k =
     \<lparr>ret = 0, stream_index = 0, sent = AVERROR_INVALIDDATA, recieved = - 11, scaled = 0,
      rgba = k, picture = None\<rparr>"

definition ten_packets :: "AVRead list" where
  "ten_packets =
     [video_packet 0, video_packet 1, video_packet 2, broken_packet 3, video_packet 4,
      video_packet 5, video_packet 6, video_packet 7, video_packet 8, video_packet 9]"

text \<open>A video packet that decodes but whose conversion fails (\<open>sws_scale\<close> returns the
  error code for an invalid argument), and ten packets of which the fourth is such a packet.\<close>

definition unconverted_packet :: "nat \<Rightarrow> AVRead" where
  "unconverted_packet k =
     \<lparr>ret = 0, stream_index = 0, sent = 0, recieved = 0, scaled = - 22, rgba = k,
      picture = Some k\<rparr>"

definition ten_unconverted :: "AVRead list" where
  "ten_unconverted =
     [video_packet 0, video_packet 1, video_packet 2, unconverted_packet 3, video_packet 4,
      video_packet 5, video_packet 6, video_packet 7, video_packet 8, video_packet 9]"

text \<open>A stream that starts with an audio packet and a video packet that encodes no picture
  (the decoder answers \<open>EAGAIN\<close>), followed by two pictures.\<close>

definition late_start :: "AVRead list" where
  "late_start =
     [\<lparr>ret = 0, stream_index = 1, sent = 0, recieved = 0, scaled = 0, rgba = 0, picture = None\<rparr>,
      \<lparr>ret = 0, stream_index = 0, sent = 0, recieved = - 11, scaled = 0, rgba = 0,
       picture = None\<rparr>,
      video_packet 7, video_packet 8]"

text \<open>
  The packets of the container \<open>audio_first\<close>: an audio packet of stream 0, which the video
  decoder rejects when it is sent to it, and two video packets of stream 1 with the pictures
  5 and 6. And a video stream at index 0 read through a decoder that holds two pictures
  back: it answers \<open>EAGAIN\<close> for the first two packets, hands out the first picture with the
  third, and the second when the empty packet of the failing read is sent to it; the third
  picture stays in the decoder.
\<close>

definition audio_first_packets :: "AVRead list" where
  "audio_first_packets =
     [\<lparr>ret = 0, stream_index = 0, sent = AVERROR_INVALIDDATA, recieved = - 11, scaled = 0,
       rgba = 0, picture = None\<rparr>,
      \<lparr>ret = 0, stream_index = 1, sent = 0, recieved = 0, scaled = 1080, rgba = 5,
       picture = Some 5\<rparr>,
      \<lparr>ret = 0, stream_index = 1, sent = 0, recieved = 0, scaled = 1080, rgba = 6,
       picture = Some 6\<rparr>]"

definition held_back :: "AVRead list" where
  "held_back =
     [\<lparr>ret = 0, stream_index = 0, sent = 0, recieved = - 11, scaled = 0, rgba = 0,
       picture = Some 0\<rparr>,
      \<lparr>ret = 0, stream_index = 0, sent = 0, recieved = - 11, scaled = 0, rgba = 0,
       picture = Some 1\<rparr>,
      \<lparr>ret = 0, stream_index = 0, sent = 0, recieved = 0, scaled = 1080, rgba = 0,
       picture = Some 2\<rparr>,
      \<lparr>ret = AVERROR_EOF, stream_index = 0, sent = 0, recieved = 0, scaled = 1080, rgba = 1,
       picture = None\<rparr>]"

text \<open>The ten packets played with five slots: the worker primes, the loop shows five
  pictures, the worker decodes the rest and returns, the loop shows them and leaves.\<close>

definition play_ten :: "action list" where
  "play_ten =
     replicate 24 Worker @ replicate 21 (Main True []) @ replicate 25 Worker
       @ replicate 19 (Main True [])"

text \<open>
  With the window closed: how many steps the worker needs at most from a program point to
  return, whether it can still call \<open>av_read_frame\<close> and whether it can still count a
  picture, the states in which the window is closed and the process runs, and the relation
  between a state and a later one in which at most the read and the picture in progress have
  been added.
\<close>

definition wleft :: "wloc \<Rightarrow> nat" where
  "wleft l =
     (case l of
        W25 \<Rightarrow> 7 | W36 \<Rightarrow> 6 | W37 \<Rightarrow> 5 | W23 \<Rightarrow> 4 | W44 \<Rightarrow> 3
      | W47 \<Rightarrow> 6 | W48 \<Rightarrow> 5 | W59 \<Rightarrow> 4 | W61 \<Rightarrow> 3 | W46 \<Rightarrow> 2 | W69 \<Rightarrow> 1 | WReturned \<Rightarrow> 0)"

definition more_reads :: "wloc \<Rightarrow> nat" where
  "more_reads l = (if l \<in> {W25, W47, W48} then 1 else 0)"

definition more_frames :: "wloc \<Rightarrow> nat" where
  "more_frames l = (if l \<in> {W25, W36, W37, W47, W48, W59, W61} then 1 else 0)"

definition cancelled :: "state \<Rightarrow> bool" where
  "cancelled s \<longleftrightarrow>
     \<not> fault s \<and> \<not> isOpen s \<and> 0 < bufferSize s \<and>
     (wpc s \<notin> priming \<longrightarrow> filled s) \<and> (wpc s = WReturned \<longrightarrow> ended s)"

definition no_more_than_one :: "state \<Rightarrow> state \<Rightarrow> bool" where
  "no_more_than_one s s' \<longleftrightarrow>
     decoded s' + more_frames (wpc s') \<le> decoded s + more_frames (wpc s) \<and>
     length (pFormatCtx s) + more_reads (wpc s') \<le> length (pFormatCtx s') + more_reads (wpc s)"

text \<open>The window closes while the worker, with two pictures decoded into five slots, is about
  to read; afterwards the worker's steps are interleaved with rounds of \<open>main\<close>.\<close>

definition closed_in_priming :: state where
  "closed_in_priming = (run (replicate 9 Worker) (init 5 ten_packets True))\<lparr>isOpen := False\<rparr>"

definition after_close :: "action list" where
  "after_close =
     [Worker, Main True [], Worker, Worker, Worker, Main False [], Worker, Worker, Worker]"

text \<open>The loop comes round while the worker, having primed, does not get to run: with one
  slot and two pictures, up to the second display; with two slots and three pictures, up to
  and including the third display. In \<open>late_ended\<close> the worker decodes the third picture,
  meets the end of the file and returns between the two loads of the exit test.\<close>

definition slow_worker :: "action list" where
  "slow_worker = replicate 6 Worker @ replicate 8 (Main True [])"

definition three_frames :: "AVRead list" where
  "three_frames = [video_packet 7, video_packet 8, video_packet 9]"

definition third_display :: "action list" where
  "third_display = replicate 10 Worker @ replicate 13 (Main True [])"

definition late_ended :: "action list" where
  "late_ended =
     replicate 10 Worker @ replicate 11 (Main True []) @ replicate 10 Worker
       @ [Main True []]"

text \<open>With one slot and a stream without pictures: the loop has passed both loads of its exit
  test before the worker sets \<open>ended\<close>.\<close>

definition passed_test :: "action list" where
  "passed_test = replicate 4 Worker @ replicate 4 (Main True []) @ replicate 2 Worker"

text \<open>
  No event of a schedule closes the window. \<open>overrun\<close> are the states in which the loop is
  ahead of a worker that has returned, with the window open.
\<close>

fun stays_open :: "action list \<Rightarrow> bool" where
  "stays_open [] = True"
| "stays_open (Worker # as) = stays_open as"
| "stays_open (Main due evs # as) = (Closed \<notin> set evs \<and> stays_open as)"

definition overrun :: "state \<Rightarrow> bool" where
  "overrun s \<longleftrightarrow>
     \<not> fault s \<and> 0 < bufferSize s \<and> isOpen s \<and> wpc s = WReturned \<and> decoded s < read s \<and>
     mpc s \<in> {M154, M161, M165, M168}"

text \<open>
  A schedule has no underrun from a state when every display step of line 165 in it is taken
  with \<open>read < decoded\<close>. \<open>shown_count\<close> is the number of pictures handed to the window,
  which is \<open>read\<close>, or one more between lines 165 and 168.
\<close>

fun no_underrun :: "action list \<Rightarrow> state \<Rightarrow> bool" where
  "no_underrun [] s = True"
| "no_underrun (a # as) s =
     ((a \<noteq> Worker \<and> mpc s = M165 \<and> \<not> fault s \<longrightarrow> read s < decoded s)
      \<and> no_underrun as (step a s))"

definition shown_count :: "state \<Rightarrow> nat" where
  "shown_count s = read s + (if mpc s = M168 then 1 else 0)"

definition in_order :: "AVRead list \<Rightarrow> state \<Rightarrow> bool" where
  "in_order input s \<longleftrightarrow>
     shown s = map Some (take (shown_count s) (frames 0 input)) \<and> shown_count s \<le> decoded s"

text \<open>
  Schedules on a stream whose first read reports end of file: with no slot at all; with one
  slot and the loop's exit test taken between the worker's two flag assignments; and with the
  worker returning before the loop reaches its exit test.
\<close>

definition zero_slots :: "action list" where
  "zero_slots = replicate 3 Worker @ replicate 5 (Main True [])"

definition early_test :: "action list" where
  "early_test = replicate 4 Worker @ replicate 6 (Main True []) @ replicate 2 Worker"

definition worker_ends_first :: "action list" where
  "worker_ends_first =
     [Worker, Worker, Main True [], Worker, Worker, Main True [], Worker, Worker]"

text \<open>
  A stream gives no picture when its first read fails and carries none. In a schedule the
  exit tests come after the end when every step of line 161 is taken with \<open>ended\<close> set.
  \<open>idle\<close> describes the states of such a run, and \<open>zleft\<close> bounds the steps the worker
  still needs to return.
\<close>

definition no_frames :: "AVRead list \<Rightarrow> bool" where
  "no_frames input = (case input of [] \<Rightarrow> True | p # ps \<Rightarrow> ret p \<noteq> 0 \<and> \<not> decodes 0 p)"

fun tests_after_end :: "action list \<Rightarrow> state \<Rightarrow> bool" where
  "tests_after_end [] s = True"
| "tests_after_end (a # as) s =
     ((a \<noteq> Worker \<and> mpc s = M161 \<and> \<not> fault s \<longrightarrow> ended s)
      \<and> tests_after_end as (step a s))"

definition idle :: "AVRead list \<Rightarrow> state \<Rightarrow> bool" where
  "idle input s \<longleftrightarrow>
     \<not> fault s \<and> 0 < bufferSize s \<and> videoStreamIndex s = 0 \<and>
     decoded s = 0 \<and> read s = 0 \<and> shown s = [] \<and>
     mpc s \<in> {M151, M154, M161, M161e, MReturned} \<and>
     (mpc s = M161e \<longrightarrow> ended s) \<and>
     wpc s \<in> {W23, W25, W44, W46, W69, WReturned} \<and>
     (wpc s = W25 \<longrightarrow> read_rc s = 0) \<and>
     (read_rc s = 0 \<longrightarrow> pFormatCtx s = input) \<and>
     (wpc s \<in> {W44, W46, W69, WReturned} \<longrightarrow> read_rc s \<noteq> 0 \<or> \<not> isOpen s) \<and>
     (filled s \<longleftrightarrow> wpc s \<notin> priming) \<and>
     (ended s \<longleftrightarrow> wpc s = WReturned) \<and>
     (mpc s \<noteq> M151 \<longrightarrow> filled s)"

definition zleft :: "state \<Rightarrow> nat" where
  "zleft s =
     (case wpc s of
        W23 \<Rightarrow> if read_rc s = 0 then 6 else 4
      | W25 \<Rightarrow> 5 | W44 \<Rightarrow> 3 | W46 \<Rightarrow> 2 | W69 \<Rightarrow> 1 | _ \<Rightarrow> 0)"


section \<open>Start-up: the missing video stream and the buffer size\<close>

lemma unat_minus_one_32: "unat (- 1 :: 32 word) = 4294967295"
  by (simp add: unsigned_minus_1_eq_mask mask_eq_exp_minus_1)

text \<open>
  C7. A container without a video stream should end in the thrown error
  \<open>cannot find video stream!\<close> before any per-stream data of the selected stream are read.
  In the code \<open>videoStreamIndex\<close> is still \<open>(unsigned) -1\<close> at line 116, which reads
  \<open>streams[4294967295]\<close>; the test of line 118 comes after it. For the audio-only container
  the start-up ends in that out-of-range read, not in the throw.
\<close>

theorem no_video_stream_reads_out_of_range:
  "main_setup audio_only = Inl (OutOfRange 4294967295)
   \<and> main_setup audio_only \<noteq> Inl (Thrown ''cannot find video stream!'')"
  by (simp add: main_setup_def audio_only_def unat_minus_one_32)

text \<open>The same for every container that opens, has stream information and no video stream.\<close>

lemma discover_no_video:
  "\<forall>st \<in> set sts. codec_type st \<noteq> AVMEDIA_TYPE_VIDEO \<Longrightarrow> discover c sts i = Inr (- 1, - 1)"
  by (induction sts arbitrary: i) auto

lemma no_video_stream_general:
  assumes "avformat_open_input c = 0" and "0 \<le> avformat_find_stream_info c"
    and "\<forall>st \<in> set (streams c). codec_type st \<noteq> AVMEDIA_TYPE_VIDEO"
    and "length (streams c) < 2 ^ 32"
  shows "main_setup c = Inl (OutOfRange 4294967295)"
  using assms discover_no_video[of "streams c" c 0]
  by (simp add: main_setup_def unat_minus_one_32)

lemma floor_half: "(\<lfloor>x\<rfloor> = \<lfloor>x + 1 / 2\<rfloor>) \<longleftrightarrow> frac x < 1 / 2" for x :: rat
proof -
  have "x + 1 / 2 = of_int \<lfloor>x\<rfloor> + (frac x + 1 / 2)"
    by (simp add: frac_def)
  then have "\<lfloor>x + 1 / 2\<rfloor> = \<lfloor>x\<rfloor> + \<lfloor>frac x + 1 / 2\<rfloor>"
    by (metis floor_add_int add.commute)
  moreover have "\<lfloor>frac x + 1 / 2\<rfloor> = 0 \<longleftrightarrow> frac x < 1 / 2"
    using frac_ge_0[of x] frac_lt_1[of x] unfolding floor_eq_iff by auto
  ultimately show ?thesis by auto
qed

lemma main_setup_film:
  assumes "d \<noteq> 0" and "to_unsigned (of_int n / of_int d) = Some k"
  shows "main_setup (film n d)
     = Inr \<lparr>videoStreamIndex0 = 0, frame_rate = of_int n / of_int d, bufferSize0 = k\<rparr>"
  using assms by (simp add: main_setup_def film_def av_q2d_def)

lemma trunc_95_4: "trunc (95 / 4) = 23"
  by code_simp

lemma trunc_ntsc: "trunc (30000 / 1001) = 29"
  by code_simp

text \<open>
  C5, as stated: the capacity is the frame rate rounded to the nearest integer. For the
  rate 95/4 = 23.75 the code allocates 23 slots, and the nearest integer is 24.
\<close>

theorem capacity_not_rounded:
  "main_setup (film 95 4) = Inr \<lparr>videoStreamIndex0 = 0, frame_rate = 95 / 4, bufferSize0 = 23\<rparr>
   \<and> round (95 / 4 :: rat) = 24"
proof -
  have "to_unsigned (of_int 95 / of_int 4) = Some 23"
    by (simp add: to_unsigned_def trunc_95_4)
  then have "main_setup (film 95 4)
      = Inr \<lparr>videoStreamIndex0 = 0, frame_rate = of_int 95 / of_int 4, bufferSize0 = 23\<rparr>"
    by (intro main_setup_film) simp_all
  moreover have "round (95 / 4 :: rat) = 24"
    by code_simp
  ultimately show ?thesis by simp
qed

text \<open>
  C5, amended: whenever the start-up succeeds, the capacity is the frame rate of the selected
  stream with its fractional part cut off (the cast of lines 125 and 137); for a non-negative
  rate this is the floor, and it is the nearest integer exactly when the fractional part is
  below one half.
\<close>

theorem capacity_is_truncated_rate:
  assumes "main_setup c = Inr p"
  shows "av_q2d (r_frame_rate (streams c ! unat (videoStreamIndex0 p))) = Some (frame_rate p)
     \<and> int (bufferSize0 p) = trunc (frame_rate p)
     \<and> (0 \<le> frame_rate p \<longrightarrow> int (bufferSize0 p) = \<lfloor>frame_rate p\<rfloor>
           \<and> (int (bufferSize0 p) = round (frame_rate p) \<longleftrightarrow> frac (frame_rate p) < 1 / 2))"
proof -
  have a: "av_q2d (r_frame_rate (streams c ! unat (videoStreamIndex0 p))) = Some (frame_rate p)"
    and b: "int (bufferSize0 p) = trunc (frame_rate p)"
    using assms
    by (auto simp: main_setup_def to_unsigned_def
        split: if_splits sum.splits option.splits prod.splits)
  have "int (bufferSize0 p) = \<lfloor>frame_rate p\<rfloor>
      \<and> (int (bufferSize0 p) = round (frame_rate p) \<longleftrightarrow> frac (frame_rate p) < 1 / 2)" if "0 \<le> frame_rate p"
    using that b floor_half[of "frame_rate p"] by (simp add: trunc_def round_def)
  with a b show ?thesis by blast
qed

theorem capacity_is_truncated_rate_witness:
  "main_setup (film 30000 1001)
     = Inr \<lparr>videoStreamIndex0 = 0, frame_rate = 30000 / 1001, bufferSize0 = 29\<rparr>
   \<and> int (bufferSize0 \<lparr>videoStreamIndex0 = 0, frame_rate = 30000 / 1001, bufferSize0 = 29\<rparr>)
       = \<lfloor>30000 / 1001 :: rat\<rfloor>
   \<and> (0::rat) \<le> 30000 / 1001"
proof -
  have "to_unsigned (of_int 30000 / of_int 1001) = Some 29"
    by (simp add: to_unsigned_def trunc_ntsc)
  then have "main_setup (film 30000 1001)
      = Inr \<lparr>videoStreamIndex0 = 0, frame_rate = of_int 30000 / of_int 1001, bufferSize0 = 29\<rparr>"
    by (intro main_setup_film) simp_all
  then have h: "main_setup (film 30000 1001)
      = Inr \<lparr>videoStreamIndex0 = 0, frame_rate = 30000 / 1001, bufferSize0 = 29\<rparr>"
    by simp
  show ?thesis
    using h capacity_is_truncated_rate[OF h] by simp
qed

section \<open>Invariants of the pipeline\<close>

lemmas worker_defs = GetVideoFrameThread_def read_and_decode_def

lemma drop_eq_ConsD:
  assumes "drop d xs = y # ys"
  shows "d < length xs" and "xs ! d = y" and "drop (Suc d) xs = ys"
proof -
  show "d < length xs"
    using assms by (cases "d < length xs") simp_all
  then have "drop d xs = xs ! d # drop (Suc d) xs"
    by (simp add: Cons_nth_drop_Suc)
  with assms show "xs ! d = y" and "drop (Suc d) xs = ys"
    by simp_all
qed

text \<open>Two frame numbers less than the capacity apart never share a slot.\<close>

lemma slot_distinct:
  fixes i d n :: nat
  assumes "i < d" and "d < i + n"
  shows "i mod n \<noteq> d mod n"
proof
  assume "i mod n = d mod n"
  then have "n dvd d - i"
    using assms(1) by (metis mod_eq_dvd_iff_nat less_imp_le_nat)
  moreover have "0 < d - i" and "d - i < n"
    using assms by simp_all
  ultimately show False
    using nat_dvd_not_less by blast
qed

lemma not_decodes_at_eof: "\<not> decodes vsi at_eof" and ret_at_eof: "ret at_eof \<noteq> 0"
  by (simp_all add: decodes_def at_eof_def AVERROR_EOF_def)

subsection \<open>The context\<close>

lemma inv_ctx_init: "inv_ctx n (init n input opened)"
  by (simp add: inv_ctx_def init_def)

lemma inv_ctx_worker: "inv_ctx n s \<Longrightarrow> inv_ctx n (GetVideoFrameThread s)"
  by (cases "wpc s"; cases "av_read_frame (pFormatCtx s)")
     (simp_all add: inv_ctx_def worker_defs)

lemma inv_ctx_main: "inv_ctx n s \<Longrightarrow> inv_ctx n (presentation due evs s)"
  by (cases "mpc s") (simp_all add: inv_ctx_def presentation_def)

subsection \<open>The flags and the program points\<close>

lemma inv_flags_init: "inv_flags opened (init n input opened)"
  by (simp add: inv_flags_def init_def priming_def)

lemma inv_flags_worker: "inv_flags opened s \<Longrightarrow> inv_flags opened (GetVideoFrameThread s)"
  by (cases "wpc s"; cases "av_read_frame (pFormatCtx s)")
     (auto simp add: inv_flags_def priming_def worker_defs)

lemma inv_flags_main: "inv_flags opened s \<Longrightarrow> inv_flags opened (presentation due evs s)"
  by (cases "mpc s") (auto simp add: inv_flags_def priming_def presentation_def)

subsection \<open>The producer never runs more than the capacity ahead\<close>

lemma inv_bound_init: "inv_bound (init n input opened)"
  by (simp add: inv_bound_def init_def)

lemma inv_bound_worker: "inv_bound s \<Longrightarrow> inv_bound (GetVideoFrameThread s)"
  by (cases "wpc s"; cases "av_read_frame (pFormatCtx s)")
     (auto simp add: inv_bound_def worker_defs)

lemma inv_bound_main: "inv_bound s \<Longrightarrow> inv_bound (presentation due evs s)"
  by (cases "mpc s") (auto simp add: inv_bound_def presentation_def)

subsection \<open>What has been decoded, what is held, what is to come\<close>

lemma inv_feed_init: "inv_feed input (init n input opened)"
  by (simp add: inv_feed_def init_def pending_def coming_def)

lemma inv_feed_worker:
  assumes "inv_feed input s" and "inv_ctx n s"
  shows "inv_feed input (GetVideoFrameThread s)"
proof (cases "wpc s")
  case W25
  then show ?thesis
    using assms
    by (cases "pFormatCtx s")
       (auto simp add: inv_feed_def inv_ctx_def worker_defs pending_def coming_def
          not_decodes_at_eof ret_at_eof)
next
  case W48
  then show ?thesis
    using assms
    by (cases "pFormatCtx s")
       (auto simp add: inv_feed_def inv_ctx_def worker_defs pending_def coming_def
          not_decodes_at_eof ret_at_eof)
next
  case W37
  then show ?thesis
    using assms
    by (auto simp add: inv_feed_def worker_defs pending_def coming_def Suc_le_eq
        dest: drop_eq_ConsD)
next
  case W61
  then show ?thesis
    using assms
    by (auto simp add: inv_feed_def worker_defs pending_def coming_def Suc_le_eq
        dest: drop_eq_ConsD)
qed (use assms in \<open>auto simp add: inv_feed_def worker_defs pending_def coming_def\<close>)

lemma inv_feed_main: "inv_feed input s \<Longrightarrow> inv_feed input (presentation due evs s)"
  by (cases "mpc s") (auto simp add: inv_feed_def presentation_def pending_def coming_def)

subsection \<open>The slots between \<open>read\<close> and \<open>decoded\<close> hold the right pictures\<close>

lemma inv_slots_init: "inv_slots input (init n input opened)"
  by (simp add: inv_slots_def init_def)

lemma inv_slots_worker:
  assumes "inv_slots input s" and "inv_ctx n s" and "inv_bound s" and "inv_feed input s"
    and "inv_flags opened s"
  shows "inv_slots input (GetVideoFrameThread s)"
proof (cases "wpc s")
  case W36
  then have "decoded s < n" and "length (buffer s) = n" and "read s = 0" and "bufferSize s = n"
    using assms by (auto simp: inv_bound_def inv_ctx_def inv_flags_def priming_def)
  then show ?thesis
    using assms(1) W36 by (auto simp add: inv_slots_def worker_defs)
next
  case W59
  then have b: "decoded s < read s + n" and l: "length (buffer s) = n" and n: "bufferSize s = n"
    using assms by (auto simp: inv_bound_def inv_ctx_def)
  show ?thesis
  proof (cases "n = 0")
    case True
    then show ?thesis
      using assms(1) W59 n by (simp add: inv_slots_def worker_defs)
  next
    case False
    have "decoded s mod n \<noteq> i mod n" if "read s \<le> i" "i < decoded s" for i
      using that b slot_distinct[of i "decoded s" n] by auto
    then show ?thesis
      using assms(1) W59 l n False by (auto simp add: inv_slots_def worker_defs)
  qed
next
  case W37
  then have "drop (decoded s) (frames 0 input) = pFrameRGB s # coming s"
    using assms(4) by (simp add: inv_feed_def pending_def)
  then have "frames 0 input ! decoded s = pFrameRGB s"
    by (rule drop_eq_ConsD)
  then show ?thesis
    using assms(1) W37 by (auto simp add: inv_slots_def worker_defs less_Suc_eq)
next
  case W61
  then have "drop (decoded s) (frames 0 input) = pFrameRGB s # coming s"
    using assms(4) by (simp add: inv_feed_def pending_def)
  then have "frames 0 input ! decoded s = pFrameRGB s"
    by (rule drop_eq_ConsD)
  then show ?thesis
    using assms(1) W61 by (auto simp add: inv_slots_def worker_defs less_Suc_eq)
next
  case W25
  then show ?thesis
    using assms(1)
    by (cases "av_read_frame (pFormatCtx s)") (auto simp add: inv_slots_def worker_defs)
next
  case W48
  then show ?thesis
    using assms(1)
    by (cases "av_read_frame (pFormatCtx s)") (auto simp add: inv_slots_def worker_defs)
qed (use assms(1) in \<open>auto simp add: inv_slots_def worker_defs\<close>)

lemma inv_slots_main: "inv_slots input s \<Longrightarrow> inv_slots input (presentation due evs s)"
  by (cases "mpc s") (auto simp add: inv_slots_def presentation_def)

subsection \<open>Every reachable state satisfies them\<close>

lemma inv_init: "inv n input opened (init n input opened)"
  by (simp add: inv_def inv_ctx_init inv_flags_init inv_bound_init inv_feed_init inv_slots_init)

lemma inv_step:
  assumes "inv n input opened s"
  shows "inv n input opened (step a s)"
proof (cases "fault s")
  case True
  then show ?thesis using assms by (simp add: step_def)
next
  case False
  show ?thesis
  proof (cases a)
    case Worker
    then have "step a s = GetVideoFrameThread s"
      using False by (simp add: step_def)
    then show ?thesis
      using assms inv_ctx_worker inv_flags_worker inv_bound_worker inv_feed_worker
        inv_slots_worker
      unfolding inv_def by metis
  next
    case (Main due evs)
    then have "step a s = presentation due evs s"
      using False by (simp add: step_def)
    then show ?thesis
      using assms inv_ctx_main inv_flags_main inv_bound_main inv_feed_main inv_slots_main
      unfolding inv_def by metis
  qed
qed

lemma inv_run: "inv n input opened s \<Longrightarrow> inv n input opened (run sched s)"
  unfolding run_def by (induction sched arbitrary: s) (simp_all add: inv_step)

lemma inv_reach: "inv n input opened (run sched (init n input opened))"
  by (rule inv_run) (rule inv_init)

text \<open>The upper half of the bound on the counters holds in every reachable state: the
  worker never counts a picture more than the capacity ahead of \<open>read\<close>.\<close>

lemma producer_stays_within_capacity:
  "decoded (run sched (init n input opened)) \<le> read (run sched (init n input opened)) + n"
  using inv_reach[of n input opened sched] by (simp add: inv_def inv_bound_def inv_ctx_def)

lemma run_append: "run (xs @ ys) s = run ys (run xs s)"
  by (simp add: run_def)

lemma run_Cons: "run (a # as) s = run as (step a s)"
  by (simp add: run_def)

lemma run_Nil: "run [] s = s"
  by (simp add: run_def)

text \<open>Evaluating a run on a given schedule.\<close>

lemma replicate_Bit0:
  "replicate (numeral (Num.Bit0 k)) x = replicate (numeral k) x @ replicate (numeral k) x"
  by (simp only: numeral_Bit0 replicate_add)

lemma replicate_Bit1:
  "replicate (numeral (Num.Bit1 k)) x = x # replicate (numeral k) x @ replicate (numeral k) x"
  by (simp only: numeral_Bit1 replicate_add replicate_Suc add_Suc_right flip: Suc_eq_plus1)

lemma replicate_One: "replicate (numeral Num.One) x = [x]"
  by simp

lemmas eval_defs = run_def step_def init_def GetVideoFrameThread_def read_and_decode_def
  presentation_def decodes_def video_packet_def two_frames_def at_eof_def AVERROR_EOF_def
  broken_packet_def AVERROR_INVALIDDATA_def ten_packets_def unconverted_packet_def
  ten_unconverted_def late_start_def three_frames_def audio_first_packets_def held_back_def
  replicate_Bit0 replicate_Bit1 replicate_One

lemma count_list_replicate: "count_list (replicate k x) x = k"
  by (induction k) simp_all

section \<open>The Decode Worker\<close>

text \<open>
  C9. Whenever the worker has returned, whatever made it leave its loops, both \<open>filled\<close>
  and \<open>ended\<close> are set.
\<close>

theorem returned_worker_has_set_both_flags:
  assumes "wpc (run sched (init n input opened)) = WReturned"
  shows "filled (run sched (init n input opened)) \<and> ended (run sched (init n input opened))"
  using assms inv_reach[of n input opened sched]
  by (simp add: inv_def inv_flags_def priming_def)

text \<open>The worker of this run leaves the second loop because the window was closed; its last
  read had succeeded.\<close>

theorem returned_worker_has_set_both_flags_witness:
  "wpc (run close_while_streaming (init 1 two_frames True)) = WReturned
   \<and> \<not> isOpen (run close_while_streaming (init 1 two_frames True))
   \<and> read_rc (run close_while_streaming (init 1 two_frames True)) = 0
   \<and> filled (run close_while_streaming (init 1 two_frames True))
   \<and> ended (run close_while_streaming (init 1 two_frames True))"
proof -
  have h: "wpc (run close_while_streaming (init 1 two_frames True)) = WReturned"
    by (simp add: close_while_streaming_def eval_defs)
  have "\<not> isOpen (run close_while_streaming (init 1 two_frames True))"
    and "read_rc (run close_while_streaming (init 1 two_frames True)) = 0"
    by (simp_all add: close_while_streaming_def eval_defs)
  with h returned_worker_has_set_both_flags[OF h] show ?thesis by simp
qed

subsection \<open>Priming\<close>

lemma not_fault_before_filled: "inv n input opened s \<Longrightarrow> \<not> filled s \<Longrightarrow> \<not> fault s"
  by (auto simp: inv_def inv_flags_def)

lemma decoded_after_priming:
  assumes "wpc (run sched (init n input True)) = W44"
  shows "decoded (run sched (init n input True)) = min n (length (frames 0 input))
     \<and> filled (step Worker (run sched (init n input True)))
     \<and> decoded (step Worker (run sched (init n input True)))
         = decoded (run sched (init n input True))"
proof -
  define s where "s = run sched (init n input True)"
  have i: "inv n input True s"
    unfolding s_def by (rule inv_reach)
  have w: "wpc s = W44"
    using assms by (simp add: s_def)
  have nf: "\<not> filled s" and m: "mpc s = M151"
    using i w by (auto simp: inv_def inv_flags_def priming_def)
  then have o: "isOpen s" and r: "read s = 0" and f: "\<not> fault s"
    using i by (auto simp: inv_def inv_flags_def)
  have c: "n \<le> decoded s \<or> read_rc s \<noteq> 0"
    using i w o by (auto simp: inv_def inv_feed_def inv_ctx_def)
  have le: "decoded s \<le> n"
    using i r by (auto simp: inv_def inv_bound_def inv_ctx_def)
  have lf: "decoded s \<le> length (frames 0 input)"
    and d: "drop (decoded s) (frames 0 input) = pending s @ coming s"
    using i by (auto simp: inv_def inv_feed_def)
  have "decoded s = min n (length (frames 0 input))"
  proof (cases "read_rc s = 0")
    case True
    with c le have "decoded s = n" by simp
    with lf show ?thesis by simp
  next
    case False
    with d w have "drop (decoded s) (frames 0 input) = []"
      by (simp add: pending_def coming_def)
    with lf have "decoded s = length (frames 0 input)" by simp
    with le show ?thesis by simp
  qed
  moreover have "filled (step Worker s)" and "decoded (step Worker s) = decoded s"
    using w f by (simp_all add: step_def GetVideoFrameThread_def)
  ultimately show ?thesis by (simp add: s_def)
qed

lemma priming_left_worker:
  assumes "inv n input opened s" and "\<not> filled s"
  shows "priming_left (step Worker s) < priming_left s"
proof -
  have f: "\<not> fault s"
    using assms by (rule not_fault_before_filled)
  have p: "wpc s \<in> priming"
    using assms by (simp add: inv_def inv_flags_def)
  have r: "wpc s = W25 \<Longrightarrow> read_rc s = 0"
    using assms by (simp add: inv_def inv_feed_def)
  show ?thesis
  proof (cases "wpc s = W25")
    case True
    then show ?thesis
      using f r
      by (cases "pFormatCtx s")
         (simp_all add: step_def worker_defs priming_left_def plen_def not_decodes_at_eof
            ret_at_eof)
  next
    case False
    then show ?thesis
      using f p
      by (auto simp add: priming_def step_def worker_defs priming_left_def plen_def)
  qed
qed

lemma main_waits: "inv n input opened s \<Longrightarrow> \<not> filled s \<Longrightarrow> step (Main due evs) s = s"
  by (auto simp: inv_def inv_flags_def step_def presentation_def)

lemma filled_worker: "filled s \<Longrightarrow> filled (GetVideoFrameThread s)"
  by (cases "wpc s"; cases "av_read_frame (pFormatCtx s)") (simp_all add: worker_defs)

lemma filled_main: "filled s \<Longrightarrow> filled (presentation due evs s)"
  by (cases "mpc s") (simp_all add: presentation_def)

lemma filled_step: "filled s \<Longrightarrow> filled (step a s)"
  by (cases a) (simp_all add: step_def filled_worker filled_main)

lemma filled_run: "filled s \<Longrightarrow> filled (run sched s)"
  by (induction sched arbitrary: s) (simp_all add: run_Nil run_Cons filled_step)

lemma priming_left_0: "inv n input opened s \<Longrightarrow> priming_left s = 0 \<Longrightarrow> filled s"
  by (cases "wpc s") (auto simp: inv_def inv_flags_def priming_def priming_left_def)

lemma priming_ends:
  "inv n input opened s \<Longrightarrow> priming_left s \<le> count_list sched Worker \<Longrightarrow> filled (run sched s)"
proof (induction sched arbitrary: s)
  case Nil
  then show ?case by (simp add: run_Nil priming_left_0)
next
  case (Cons a sched)
  show ?case
  proof (cases "filled s")
    case True
    then show ?thesis by (rule filled_run)
  next
    case False
    show ?thesis
    proof (cases a)
      case Worker
      have "priming_left (step Worker s) < priming_left s"
        using Cons.prems(1) False by (rule priming_left_worker)
      then have "priming_left (step a s) \<le> count_list sched Worker"
        using Cons.prems(2) Worker by simp
      moreover have "inv n input opened (step a s)"
        using Cons.prems(1) by (rule inv_step)
      ultimately show ?thesis
        using Cons.IH by (simp add: run_Cons)
    next
      case (Main due evs)
      then have "step a s = s"
        using Cons.prems(1) False by (simp add: main_waits)
      then show ?thesis
        using Cons.IH[of s] Cons.prems Main by (simp add: run_Cons)
    qed
  qed
qed

lemma priming_left_init: "priming_left (init n input opened) = 4 * length input + 6"
  by (simp add: priming_left_def plen_def init_def)

text \<open>
  What the first loop does: with the window open at the start, the worker leaves it (it
  stands at line 44) having counted the pictures its calls handed to it, up to the capacity,
  and line 44 then sets \<open>filled\<close> without touching \<open>decoded\<close>. The loop does end: in any
  schedule that gives the worker four steps for every recorded call of \<open>av_read_frame\<close> and
  six more, \<open>filled\<close> has been set.
\<close>

lemma priming_counts_what_it_is_handed:
  "(wpc (run sched (init n input True)) = W44 \<longrightarrow>
      decoded (run sched (init n input True)) = min n (length (frames 0 input))
      \<and> filled (step Worker (run sched (init n input True)))
      \<and> decoded (step Worker (run sched (init n input True)))
          = decoded (run sched (init n input True)))
   \<and> (4 * length input + 6 \<le> count_list sched' Worker \<longrightarrow>
        filled (run sched' (init n input True)))"
  using decoded_after_priming[of sched n input]
    priming_ends[OF inv_init, of n input True sched']
  by (simp add: priming_left_init)

text \<open>The pictures counted in the first loop are in the first slots, in the order in which
  the worker was handed them.\<close>

lemma primed_slots_hold_what_was_handed:
  assumes "wpc (run sched (init n input True)) = W44"
  shows "take (decoded (run sched (init n input True))) (buffer (run sched (init n input True)))
       = map Some (take (decoded (run sched (init n input True))) (frames 0 input))"
proof -
  define s where "s = run sched (init n input True)"
  have i: "inv n input True s"
    unfolding s_def by (rule inv_reach)
  have w: "wpc s = W44"
    using assms by (simp add: s_def)
  have r: "read s = 0"
    using i w by (auto simp add: inv_def inv_flags_def priming_def)
  have n: "bufferSize s = n" "length (buffer s) = n"
    using i by (simp_all add: inv_def inv_ctx_def)
  have b: "decoded s \<le> n"
    using i r n by (simp add: inv_def inv_bound_def)
  have f: "decoded s \<le> length (frames 0 input)"
    using i by (simp add: inv_def inv_feed_def)
  have sl: "\<forall>k. read s \<le> k \<and> k < decoded s \<longrightarrow>
      buffer s ! (k mod bufferSize s) = Some (frames 0 input ! k)"
    using i by (simp add: inv_def inv_slots_def)
  have "take (decoded s) (buffer s) = map Some (take (decoded s) (frames 0 input))"
  proof (rule nth_equalityI)
    show "length (take (decoded s) (buffer s))
        = length (map Some (take (decoded s) (frames 0 input)))"
      using b f n by simp
  next
    fix k
    assume "k < length (take (decoded s) (buffer s))"
    then have k: "k < decoded s"
      by simp
    then have "buffer s ! (k mod bufferSize s) = Some (frames 0 input ! k)"
      using sl r by simp
    moreover have "k mod bufferSize s = k"
      using k b n by simp
    ultimately show "take (decoded s) (buffer s) ! k
        = map Some (take (decoded s) (frames 0 input)) ! k"
      using k f by simp
  qed
  then show ?thesis
    by (simp add: s_def)
qed

text \<open>
  What the worker is handed is what the stream holds when the selected stream is stream 0
  and the decoder hands out every picture with the packet that encodes it.
\<close>

lemma handed_is_held: "list_all undelayed input \<Longrightarrow> frames 0 input = pictures 0 input"
  by (induction input) (auto simp add: undelayed_def)

lemma main_setup_video_first:
  "main_setup video_first = Inr \<lparr>videoStreamIndex0 = 0, frame_rate = 5, bufferSize0 = 5\<rparr>"
proof -
  have "trunc 5 = 5"
    by (simp add: trunc_def)
  then show ?thesis
    by (simp add: main_setup_def video_first_def av_q2d_def to_unsigned_def)
qed

text \<open>
  C3, as stated: after priming, \<open>decoded\<close> is the smaller of the capacity and the number of
  decodable frames of the selected video stream, also for a decoder that buffers. The worker
  calls \<open>avcodec_receive_frame\<close> once for every packet and never drains the decoder: with a
  decoder that holds two pictures back, a stream of three pictures at index 0 and five
  slots, it stands at line 44 with \<open>decoded = 2\<close>. And the worker compares the stream index
  of a packet with \<open>param.videoStreamIndex\<close>, which \<open>main\<close> never assigns: it is 0 whatever
  stream lines 94--114 selected. For the container \<open>audio_first\<close> the start-up selects
  stream 1 and allocates 25 slots; the stream holds two decodable pictures; the worker sends
  the audio packet of stream 0 to the video decoder, passes over both video packets, and
  stands at line 44 with \<open>decoded = 0\<close> and every slot empty.
\<close>

theorem priming_misses_decodable_frames:
  "totalFramesAvailable 0 held_back = 3
   \<and> min 5 (totalFramesAvailable 0 held_back) = 3
   \<and> wpc (run (replicate 13 Worker) (init 5 held_back True)) = W44
   \<and> decoded (run (replicate 13 Worker) (init 5 held_back True)) = 2
   \<and> filled (step Worker (run (replicate 13 Worker) (init 5 held_back True)))
   \<and> main_setup audio_first
       = Inr \<lparr>videoStreamIndex0 = 1, frame_rate = 25, bufferSize0 = 25\<rparr>
   \<and> videoStreamIndex (init 25 audio_first_packets True) = 0
   \<and> min 25 (totalFramesAvailable 1 audio_first_packets) = 2
   \<and> wpc (run (replicate 9 Worker) (init 25 audio_first_packets True)) = W44
   \<and> decoded (run (replicate 9 Worker) (init 25 audio_first_packets True)) = 0
   \<and> buffer (run (replicate 9 Worker) (init 25 audio_first_packets True)) = replicate 25 None
   \<and> filled (step Worker (run (replicate 9 Worker) (init 25 audio_first_packets True)))"
proof -
  have "trunc 25 = 25"
    by (simp add: trunc_def)
  then have "main_setup audio_first
      = Inr \<lparr>videoStreamIndex0 = 1, frame_rate = 25, bufferSize0 = 25\<rparr>"
    by (simp add: main_setup_def audio_first_def av_q2d_def to_unsigned_def)
  moreover have "totalFramesAvailable 1 audio_first_packets = 2"
    by (simp add: totalFramesAvailable_def audio_first_packets_def)
  moreover have "videoStreamIndex (init 25 audio_first_packets True) = 0"
    and "wpc (run (replicate 9 Worker) (init 25 audio_first_packets True)) = W44"
    and "decoded (run (replicate 9 Worker) (init 25 audio_first_packets True)) = 0"
    and "buffer (run (replicate 9 Worker) (init 25 audio_first_packets True))
          = replicate 25 None"
    and "filled (step Worker (run (replicate 9 Worker) (init 25 audio_first_packets True)))"
    by (simp_all add: eval_defs)
  moreover have "totalFramesAvailable 0 held_back = 3"
    by (simp add: totalFramesAvailable_def held_back_def)
  moreover have "wpc (run (replicate 13 Worker) (init 5 held_back True)) = W44"
    and "decoded (run (replicate 13 Worker) (init 5 held_back True)) = 2"
    and "filled (step Worker (run (replicate 13 Worker) (init 5 held_back True)))"
    by (simp_all add: eval_defs)
  ultimately show ?thesis by simp
qed

text \<open>
  C3, amended: when the start-up has selected stream 0 and every call is undelayed (the
  decoder hands out each picture with the packet that encodes it), the worker, with the
  window open at the start, leaves the first loop (it stands at line 44) with \<open>decoded\<close> the
  smaller of the capacity and \<open>totalFramesAvailable\<close> of the selected stream, and with these
  pictures in the first slots in their order; line 44 then sets \<open>filled\<close> without touching
  \<open>decoded\<close>. The loop does end: in any schedule that gives the worker four steps for every
  recorded call of \<open>av_read_frame\<close> and six more, \<open>filled\<close> has been set.
\<close>

theorem priming_counts_undelayed_frames_of_stream_0:
  assumes "main_setup c = Inr v" and "videoStreamIndex0 v = 0" and "list_all undelayed input"
  shows "(wpc (run sched (init (bufferSize0 v) input True)) = W44 \<longrightarrow>
      decoded (run sched (init (bufferSize0 v) input True))
        = min (bufferSize0 v) (totalFramesAvailable (uint (videoStreamIndex0 v)) input)
      \<and> take (decoded (run sched (init (bufferSize0 v) input True)))
            (buffer (run sched (init (bufferSize0 v) input True)))
          = map Some (take (decoded (run sched (init (bufferSize0 v) input True)))
              (pictures (uint (videoStreamIndex0 v)) input))
      \<and> filled (step Worker (run sched (init (bufferSize0 v) input True)))
      \<and> decoded (step Worker (run sched (init (bufferSize0 v) input True)))
          = decoded (run sched (init (bufferSize0 v) input True)))
   \<and> (4 * length input + 6 \<le> count_list sched' Worker \<longrightarrow>
        filled (run sched' (init (bufferSize0 v) input True)))"
proof -
  have h: "frames 0 input = pictures 0 input"
    using assms(3) by (rule handed_is_held)
  have z: "uint (videoStreamIndex0 v) = 0"
    using assms(2) by simp
  show ?thesis
    using priming_counts_what_it_is_handed[of sched "bufferSize0 v" input sched']
      primed_slots_hold_what_was_handed[of sched "bufferSize0 v" input]
    by (simp add: h z totalFramesAvailable_def)
qed

text \<open>Five slots and the stream \<open>late_start\<close>: the worker passes over the audio packet and
  the packet without a picture, decodes the two pictures, meets the end of the file and
  stands at line 44 with \<open>decoded = 2\<close>.\<close>

theorem priming_counts_undelayed_frames_of_stream_0_witness:
  "main_setup video_first = Inr \<lparr>videoStreamIndex0 = 0, frame_rate = 5, bufferSize0 = 5\<rparr>
   \<and> list_all undelayed late_start
   \<and> wpc (run (replicate 15 Worker) (init 5 late_start True)) = W44
   \<and> totalFramesAvailable 0 late_start = 2
   \<and> decoded (run (replicate 15 Worker) (init 5 late_start True)) = 2
   \<and> take 2 (buffer (run (replicate 15 Worker) (init 5 late_start True))) = [Some 7, Some 8]
   \<and> filled (step Worker (run (replicate 15 Worker) (init 5 late_start True)))
   \<and> 4 * length late_start + 6 \<le> count_list (replicate 22 Worker) Worker
   \<and> filled (run (replicate 22 Worker) (init 5 late_start True))"
proof -
  have a: "main_setup video_first
      = Inr \<lparr>videoStreamIndex0 = 0, frame_rate = 5, bufferSize0 = 5\<rparr>"
    by (rule main_setup_video_first)
  have b: "videoStreamIndex0 \<lparr>videoStreamIndex0 = 0, frame_rate = 5, bufferSize0 = 5\<rparr> = 0"
    by simp
  have u: "list_all undelayed late_start"
    by (simp add: undelayed_def late_start_def video_packet_def decodes_def)
  have h: "wpc (run (replicate 15 Worker) (init 5 late_start True)) = W44"
    by (simp add: eval_defs)
  have t: "totalFramesAvailable 0 late_start = 2" and p: "pictures 0 late_start = [7, 8]"
    by (simp_all add: totalFramesAvailable_def late_start_def video_packet_def)
  have c: "4 * length late_start + 6 \<le> count_list (replicate 22 Worker) Worker"
    by (simp add: count_list_replicate late_start_def)
  note r = priming_counts_undelayed_frames_of_stream_0
      [OF a b u, of "replicate 15 Worker" "replicate 22 Worker"]
  have d: "decoded (run (replicate 15 Worker) (init 5 late_start True)) = 2"
    using r h t by simp
  have k: "take 2 (buffer (run (replicate 15 Worker) (init 5 late_start True)))
      = [Some 7, Some 8]"
    using r h by (simp add: d p)
  have f: "filled (step Worker (run (replicate 15 Worker) (init 5 late_start True)))"
    and g: "filled (run (replicate 22 Worker) (init 5 late_start True))"
    using r h c by simp_all
  show ?thesis
    using a u h t c d k f g by simp
qed

subsection \<open>Packets the decoder rejects\<close>

lemma skip_step:
  assumes "\<not> fault s" and "wpc s = W25 \<or> wpc s = W48" and "pFormatCtx s = p # ps"
    and "stream_index p = videoStreamIndex s" and "sent p \<noteq> 0 \<or> recieved p \<noteq> 0"
  shows "decoded (step Worker s) = decoded s \<and> buffer (step Worker s) = buffer s
     \<and> pFormatCtx (step Worker s) = ps \<and> read_rc (step Worker s) = ret p
     \<and> \<not> fault (step Worker s)
     \<and> wpc (step Worker s) = (if wpc s = W25 then W23 else W46)"
  using assms by (auto simp add: step_def worker_defs decodes_def)

lemma final_count:
  assumes "wpc (run sched (init n input True)) = WReturned"
    and "isOpen (run sched (init n input True))"
  shows "decoded (run sched (init n input True)) = length (frames 0 input)"
proof -
  define s where "s = run sched (init n input True)"
  have i: "inv n input True s"
    unfolding s_def by (rule inv_reach)
  have w: "wpc s = WReturned" and o: "isOpen s"
    using assms by (simp_all add: s_def)
  have "read_rc s \<noteq> 0"
    using i w o by (simp add: inv_def inv_feed_def)
  moreover have "decoded s \<le> length (frames 0 input)"
    and "drop (decoded s) (frames 0 input) = pending s @ coming s"
    using i by (auto simp: inv_def inv_feed_def)
  ultimately show ?thesis
    using w by (simp add: pending_def coming_def s_def)
qed

lemma frames_skip:
  assumes "ret p = 0" and "\<not> decodes vsi p"
  shows "frames vsi (xs @ p # ys) = frames vsi (xs @ ys)"
  using assms by (induction xs) simp_all

lemma decoded_packet_is_kept:
  assumes "\<not> fault s" and "wpc s = W25 \<or> wpc s = W48" and "pFormatCtx s = p # ps"
    and "decodes (videoStreamIndex s) p"
  shows "pFrameRGB (step Worker s) = rgba p
     \<and> wpc (step Worker s) = (if wpc s = W25 then W36 else W59)"
  using assms by (auto simp add: step_def worker_defs)

text \<open>
  C6, as stated: a packet whose decode or conversion fails is dropped. Of ten packets that
  all decode, the fourth with a failed conversion, the worker counts ten: the picture of
  the fourth is stored in slot 3 and counted like the others.
\<close>

theorem failed_conversion_is_counted:
  "scaled (ten_unconverted ! 3) < 0
   \<and> wpc (run (replicate 41 Worker) (init 10 ten_unconverted True)) = W44
   \<and> decoded (run (replicate 41 Worker) (init 10 ten_unconverted True)) = 10
   \<and> buffer (run (replicate 41 Worker) (init 10 ten_unconverted True)) ! 3 = Some 3"
  by (simp add: eval_defs)

text \<open>
  C6, amended. A packet of the video stream for which \<open>avcodec_send_packet\<close> or
  \<open>avcodec_receive_frame\<close> does not return 0 is dropped: the step that reads it changes
  neither \<open>decoded\<close> nor the buffer, does not stop the process, and leads back to the loop
  test, which looks only at the result of the read. Such a packet takes nothing away from
  the pictures the worker is handed, and a worker that has returned with the window open
  has counted all of those. A packet that decodes is kept whatever \<open>sws_scale\<close> returned.
\<close>

theorem rejected_packet_is_dropped:
  "(\<not> fault s \<and> (wpc s = W25 \<or> wpc s = W48) \<and> pFormatCtx s = p # ps
      \<and> stream_index p = videoStreamIndex s \<and> (sent p \<noteq> 0 \<or> recieved p \<noteq> 0) \<longrightarrow>
        decoded (step Worker s) = decoded s \<and> buffer (step Worker s) = buffer s
        \<and> pFormatCtx (step Worker s) = ps \<and> read_rc (step Worker s) = ret p
        \<and> \<not> fault (step Worker s)
        \<and> wpc (step Worker s) = (if wpc s = W25 then W23 else W46))
   \<and> (ret q = 0 \<and> \<not> decodes 0 q \<longrightarrow> frames 0 (xs @ q # ys) = frames 0 (xs @ ys))
   \<and> (wpc (run sched (init n input True)) = WReturned \<and> isOpen (run sched (init n input True)) \<longrightarrow>
        decoded (run sched (init n input True)) = length (frames 0 input))
   \<and> (\<not> fault t \<and> (wpc t = W25 \<or> wpc t = W48) \<and> pFormatCtx t = r # rs
        \<and> decodes (videoStreamIndex t) r \<longrightarrow>
        pFrameRGB (step Worker t) = rgba r
        \<and> wpc (step Worker t) = (if wpc t = W25 then W36 else W59))"
  using skip_step[of s p ps] frames_skip[of q 0 xs ys] final_count[of sched n input]
    decoded_packet_is_kept[of t r rs]
  by simp

text \<open>Ten packets, the fourth rejected, five slots: the worker meets the rejected packet
  after thirteen steps, passes over it, and returns with \<open>decoded = 9\<close>.\<close>

theorem rejected_packet_is_dropped_witness:
  "wpc (run (replicate 13 Worker) (init 5 ten_packets True)) = W25
   \<and> pFormatCtx (run (replicate 13 Worker) (init 5 ten_packets True))
       = broken_packet 3 # drop 4 ten_packets
   \<and> wpc (step Worker (run (replicate 13 Worker) (init 5 ten_packets True))) = W23
   \<and> decoded (step Worker (run (replicate 13 Worker) (init 5 ten_packets True))) = 3
   \<and> length (frames 0 ten_packets) = 9
   \<and> wpc (run play_ten (init 5 ten_packets True)) = WReturned
   \<and> \<not> fault (run play_ten (init 5 ten_packets True))
   \<and> decoded (run play_ten (init 5 ten_packets True)) = 9
   \<and> wpc (run (replicate 13 Worker) (init 5 ten_unconverted True)) = W25
   \<and> wpc (step Worker (run (replicate 13 Worker) (init 5 ten_unconverted True))) = W36"
proof -
  let ?s = "run (replicate 13 Worker) (init 5 ten_packets True)"
  let ?t = "run play_ten (init 5 ten_packets True)"
  let ?u = "run (replicate 13 Worker) (init 5 ten_unconverted True)"
  have s: "\<not> fault ?s" "wpc ?s = W25" "pFormatCtx ?s = broken_packet 3 # drop 4 ten_packets"
    "videoStreamIndex ?s = 0" "decoded ?s = 3"
    by (simp_all add: eval_defs)
  have b: "stream_index (broken_packet 3) = 0" "sent (broken_packet 3) \<noteq> 0"
    "ret (broken_packet 3) = 0" "\<not> decodes 0 (broken_packet 3)"
    by (simp_all add: broken_packet_def AVERROR_INVALIDDATA_def decodes_def)
  have t: "wpc ?t = WReturned" "isOpen ?t" "\<not> fault ?t"
    by (simp_all add: play_ten_def eval_defs)
  have f: "length (frames 0 ten_packets) = 9"
    by (simp add: ten_packets_def video_packet_def broken_packet_def
        AVERROR_INVALIDDATA_def decodes_def)
  have u: "\<not> fault ?u" "wpc ?u = W25"
    "pFormatCtx ?u = unconverted_packet 3 # drop 4 ten_unconverted" "videoStreamIndex ?u = 0"
    by (simp_all add: eval_defs)
  have c: "decodes 0 (unconverted_packet 3)"
    by (simp add: unconverted_packet_def decodes_def)
  show ?thesis
    using s b t f u c
      rejected_packet_is_dropped
        [of ?s "broken_packet 3" "drop 4 ten_packets" "broken_packet 3" "take 3 ten_packets"
          "drop 4 ten_packets" play_ten 5 ten_packets ?u "unconverted_packet 3"
          "drop 4 ten_unconverted"]
    by simp
qed

subsection \<open>Cancellation\<close>

lemma cancelled_worker:
  assumes "cancelled s"
  shows "cancelled (GetVideoFrameThread s)" and "no_more_than_one s (GetVideoFrameThread s)"
    and "wpc s \<noteq> WReturned \<Longrightarrow> wleft (wpc (GetVideoFrameThread s)) < wleft (wpc s)"
  using assms
  by (cases "wpc s"; cases "pFormatCtx s";
      auto simp add: cancelled_def no_more_than_one_def priming_def worker_defs wleft_def more_reads_def
        more_frames_def)+

lemma cancelled_main:
  assumes "cancelled s"
  shows "cancelled (presentation due evs s)" and "no_more_than_one s (presentation due evs s)"
    and "wpc (presentation due evs s) = wpc s"
  using assms
  by (cases "mpc s"; auto simp add: cancelled_def no_more_than_one_def presentation_def)+

lemma one_refl: "no_more_than_one s s"
  by (simp add: no_more_than_one_def)

lemma one_trans: "no_more_than_one s t \<Longrightarrow> no_more_than_one t u \<Longrightarrow> no_more_than_one s u"
  by (auto simp add: no_more_than_one_def)

lemma cancelled_run:
  "cancelled s \<Longrightarrow> wleft (wpc s) \<le> count_list sched Worker \<Longrightarrow>
     cancelled (run sched s) \<and> no_more_than_one s (run sched s) \<and> wpc (run sched s) = WReturned"
proof (induction sched arbitrary: s)
  case Nil
  then show ?case
    by (cases "wpc s") (simp_all add: run_Nil one_refl wleft_def)
next
  case (Cons a sched)
  have nf: "\<not> fault s"
    using Cons.prems(1) by (simp add: cancelled_def)
  have "cancelled (step a s) \<and> no_more_than_one s (step a s)
      \<and> wleft (wpc (step a s)) \<le> count_list sched Worker"
  proof (cases a)
    case Worker
    then have st: "step a s = GetVideoFrameThread s"
      using nf by (simp add: step_def)
    show ?thesis
    proof (cases "wpc s = WReturned")
      case True
      then have "wpc (GetVideoFrameThread s) = WReturned"
        by (simp add: GetVideoFrameThread_def)
      then show ?thesis
        using st cancelled_worker(1,2)[OF Cons.prems(1)] by (simp add: wleft_def)
    next
      case False
      then show ?thesis
        using st cancelled_worker[OF Cons.prems(1)] Cons.prems(2) Worker by simp
    qed
  next
    case (Main due evs)
    then have "step a s = presentation due evs s"
      using nf by (simp add: step_def)
    then show ?thesis
      using cancelled_main[OF Cons.prems(1), of due evs] Cons.prems(2) Main by simp
  qed
  then show ?case
    using Cons.IH[of "step a s"] one_trans[of s "step a s"] by (auto simp add: run_Cons)
qed

text \<open>
  C8. If the window is closed while the worker is in its first loop with
  \<open>decoded < capacity\<close>, then in any schedule that gives the worker seven steps it has
  returned, with \<open>filled\<close> and \<open>ended\<close> set; it has called \<open>av_read_frame\<close> at most once
  more and counted at most one more picture, that is, it finishes at most the iteration of
  the first loop it is in and enters the second loop not at all.
\<close>

theorem closed_window_stops_priming_worker:
  assumes "\<not> fault s" and "\<not> isOpen s" and "wpc s \<in> {W23, W25, W36, W37}"
    and "decoded s < bufferSize s" and "7 \<le> count_list sched Worker"
  shows "wpc (run sched s) = WReturned \<and> filled (run sched s) \<and> ended (run sched s)
     \<and> \<not> fault (run sched s)
     \<and> decoded (run sched s) \<le> decoded s + 1
     \<and> length (pFormatCtx s) \<le> length (pFormatCtx (run sched s)) + 1"
proof -
  have c: "cancelled s"
    using assms(1-4) by (auto simp add: cancelled_def priming_def)
  have "wleft (wpc s) \<le> 7"
    by (cases "wpc s") (simp_all add: wleft_def)
  then have "cancelled (run sched s) \<and> no_more_than_one s (run sched s) \<and> wpc (run sched s) = WReturned"
    using c assms(5) by (intro cancelled_run) simp_all
  then show ?thesis
    by (auto simp add: cancelled_def no_more_than_one_def priming_def more_frames_def more_reads_def
        split: if_splits)
qed


theorem closed_window_stops_priming_worker_witness:
  "\<not> fault closed_in_priming \<and> \<not> isOpen closed_in_priming \<and> wpc closed_in_priming = W25
   \<and> decoded closed_in_priming = 2 \<and> bufferSize closed_in_priming = 5
   \<and> count_list after_close Worker = 7
   \<and> wpc (run after_close closed_in_priming) = WReturned
   \<and> ended (run after_close closed_in_priming)
   \<and> decoded (run after_close closed_in_priming) = 3
   \<and> length (pFormatCtx (run after_close closed_in_priming)) = 7"
proof -
  have s: "\<not> fault closed_in_priming" "\<not> isOpen closed_in_priming"
    "wpc closed_in_priming = W25" "decoded closed_in_priming = 2"
    "bufferSize closed_in_priming = 5"
    by (simp_all add: closed_in_priming_def eval_defs)
  have k: "count_list after_close Worker = 7"
    by (simp add: after_close_def)
  have d: "decoded (run after_close closed_in_priming) = 3"
    "length (pFormatCtx (run after_close closed_in_priming)) = 7"
    by (simp_all add: closed_in_priming_def after_close_def eval_defs)
  show ?thesis
    using s k d closed_window_stops_priming_worker[of closed_in_priming after_close] by simp
qed


section \<open>The Presentation Loop\<close>

text \<open>What holds of the exit: a step takes \<open>main\<close> out of the loop only at the exit test,
  with the window closed at the first load or \<open>ended\<close> set at the second; and in every
  reachable state in which \<open>main\<close> has left the loop the window is closed or \<open>ended\<close> is
  set.\<close>

lemma loop_leaves_only_at_exit_test:
  assumes "mpc s \<noteq> MReturned" and "mpc (step a s) = MReturned"
  shows "a \<noteq> Worker \<and> \<not> fault s
     \<and> (mpc s = M161 \<and> \<not> isOpen s \<or> mpc s = M161e \<and> ended s)"
proof -
  have nf: "\<not> fault s"
    using assms by (auto simp: step_def)
  show ?thesis
  proof (cases a)
    case Worker
    then have "mpc (step a s) = mpc s"
      using nf
      by (cases "wpc s"; cases "av_read_frame (pFormatCtx s)")
         (simp_all add: step_def worker_defs)
    then show ?thesis using assms by simp
  next
    case (Main due evs)
    then show ?thesis
      using assms nf
      by (cases "mpc s") (auto simp add: step_def presentation_def split: if_splits)
  qed
qed

lemma left_loop_closed_or_ended:
  "mpc (run sched (init n input opened)) = MReturned \<Longrightarrow>
     \<not> isOpen (run sched (init n input opened)) \<or> ended (run sched (init n input opened))"
  using inv_reach[of n input opened sched] by (auto simp add: inv_def inv_flags_def)

text \<open>A loop that is ahead of a returned worker never leaves while the window stays open.\<close>

lemma overrun_step:
  assumes "overrun s" and "stays_open [a]"
  shows "overrun (step a s)"
proof (cases a)
  case Worker
  then show ?thesis
    using assms(1) by (simp add: overrun_def step_def GetVideoFrameThread_def)
next
  case (Main due evs)
  then have "Closed \<notin> set evs"
    using assms(2) by simp
  then show ?thesis
    using assms(1) Main
    by (cases "mpc s") (auto simp add: overrun_def step_def presentation_def)
qed

lemma overrun_run: "overrun s \<Longrightarrow> stays_open sched \<Longrightarrow> overrun (run sched s)"
proof (induction sched arbitrary: s)
  case Nil
  then show ?case by (simp add: run_Nil)
next
  case (Cons a sched)
  have "stays_open [a]" and "stays_open sched"
    using Cons.prems(2) by (cases a; simp)+
  then show ?case
    using Cons.IH[of "step a s"] overrun_step[OF Cons.prems(1)] by (simp add: run_Cons)
qed

lemma overrun_never_leaves:
  "overrun s \<Longrightarrow> stays_open sched \<Longrightarrow> mpc (run sched s) \<noteq> MReturned"
  using overrun_run[of s sched] by (auto simp add: overrun_def)

text \<open>
  C4. The loop should leave exactly when the window is closed or \<open>ended\<close> and
  \<open>read == decoded\<close> both hold. The test of line 161 compares the counters and loads
  \<open>ended\<close> afterwards, without synchronisation. With two slots and three pictures the loop
  has shown two pictures and finds \<open>read == decoded == 2\<close>; before it loads \<open>ended\<close> the
  worker decodes the third picture, meets the end of the file and sets \<open>ended\<close>; the loop
  then leaves with the window open, \<open>read = 2\<close> and \<open>decoded = 3\<close>. In the other direction,
  with one slot and no picture the loop has passed its test when the worker sets \<open>ended\<close>:
  \<open>ended\<close> and \<open>read == decoded\<close> hold with the window open, and ten steps later the loop
  is still running, having shown the empty slot three times.
\<close>

theorem loop_leaves_with_picture_undisplayed:
  "mpc (run late_ended (init 2 three_frames True)) = MReturned
   \<and> isOpen (run late_ended (init 2 three_frames True))
   \<and> read (run late_ended (init 2 three_frames True)) = 2
   \<and> decoded (run late_ended (init 2 three_frames True)) = 3
   \<and> shown (run late_ended (init 2 three_frames True)) = [Some 7, Some 8]
   \<and> mpc (run passed_test (init 1 [] True)) = M165
   \<and> isOpen (run passed_test (init 1 [] True))
   \<and> ended (run passed_test (init 1 [] True))
   \<and> read (run passed_test (init 1 [] True)) = decoded (run passed_test (init 1 [] True))
   \<and> mpc (run (passed_test @ replicate 10 (Main True [])) (init 1 [] True)) = M154
   \<and> read (run (passed_test @ replicate 10 (Main True [])) (init 1 [] True)) = 3
   \<and> shown (run (passed_test @ replicate 10 (Main True [])) (init 1 [] True))
       = [None, None, None]"
  by (simp add: late_ended_def passed_test_def eval_defs)

section \<open>The ring buffer\<close>

text \<open>
  C1. The counters should satisfy \<open>read \<le> decoded \<le> read + capacity\<close> at all times, the
  loop waiting while \<open>read = decoded\<close> and the stream has not ended. The test of line 161
  leaves the loop when \<open>read = decoded\<close> and \<open>ended\<close>, and otherwise goes on to the display
  without comparing the counters. With one slot and two pictures, when the worker does not
  get to decode the second picture in time, the loop stands at line 165 with
  \<open>read = decoded = 1\<close>, shows the first picture again and increments \<open>read\<close> to 2 while
  \<open>decoded\<close> is 1.
\<close>

theorem loop_shows_slot_not_yet_written:
  "mpc (run slow_worker (init 1 two_frames True)) = M165
   \<and> read (run slow_worker (init 1 two_frames True)) = 1
   \<and> decoded (run slow_worker (init 1 two_frames True)) = 1
   \<and> shown (run (slow_worker @ [Main True []]) (init 1 two_frames True)) = [Some 7, Some 7]
   \<and> read (run (slow_worker @ [Main True [], Main True []]) (init 1 two_frames True)) = 2
   \<and> decoded (run (slow_worker @ [Main True [], Main True []]) (init 1 two_frames True)) = 1
   \<and> isOpen (run (slow_worker @ [Main True [], Main True []]) (init 1 two_frames True))
   \<and> mpc (run (slow_worker @ [Main True [], Main True []]) (init 1 two_frames True)) = M154"
  by (simp add: slow_worker_def eval_defs)

subsection \<open>Order of display\<close>

lemma worker_keeps_shown:
  "shown (GetVideoFrameThread s) = shown s \<and> read (GetVideoFrameThread s) = read s
   \<and> mpc (GetVideoFrameThread s) = mpc s \<and> decoded s \<le> decoded (GetVideoFrameThread s)"
  by (cases "wpc s"; cases "av_read_frame (pFormatCtx s)") (simp_all add: worker_defs)

lemma in_order_init: "in_order input (init n input opened)"
  by (simp add: in_order_def shown_count_def init_def)

lemma in_order_main:
  assumes "inv n input opened s" and "in_order input s"
    and "mpc s = M165 \<Longrightarrow> read s < decoded s"
  shows "in_order input (presentation due evs s)"
proof (cases "mpc s")
  case M165
  then have lt: "read s < decoded s" by (rule assms(3))
  have sl: "inv_slots input s" and bd: "inv_bound s" and fd: "inv_feed input s"
    using assms(1) by (simp_all add: inv_def)
  have b1: "decoded s \<le> read s + bufferSize s"
    using bd by (simp add: inv_bound_def)
  have b2: "decoded s \<le> length (frames 0 input)"
    using fd by (simp add: inv_feed_def)
  have b3: "buffer s ! (read s mod bufferSize s) = Some (frames 0 input ! read s)"
    using sl lt unfolding inv_slots_def by blast
  have p: "0 < bufferSize s" and l: "read s < length (frames 0 input)"
    using lt b1 b2 by auto
  have "shown s = map Some (take (read s) (frames 0 input))"
    using assms(2) M165 by (simp add: in_order_def shown_count_def)
  then have "shown s @ [buffer s ! (read s mod bufferSize s)]
      = map Some (take (Suc (read s)) (frames 0 input))"
    using b3 l by (simp add: take_Suc_conv_app_nth)
  then show ?thesis
    using M165 p lt by (simp add: in_order_def shown_count_def presentation_def)
next
  case M151
  then show ?thesis
    using assms(2) by (simp add: in_order_def shown_count_def presentation_def)
next
  case M154
  then show ?thesis
    using assms(2) by (simp add: in_order_def shown_count_def presentation_def)
next
  case M161
  then show ?thesis
    using assms(2) by (simp add: in_order_def shown_count_def presentation_def)
next
  case M161e
  then show ?thesis
    using assms(2) by (simp add: in_order_def shown_count_def presentation_def)
next
  case M168
  then show ?thesis
    using assms(2) by (simp add: in_order_def shown_count_def presentation_def)
next
  case MReturned
  then show ?thesis
    using assms(2) by (simp add: in_order_def shown_count_def presentation_def)
qed

lemma in_order_step:
  assumes "inv n input opened s" and "in_order input s"
    and "a \<noteq> Worker \<and> mpc s = M165 \<and> \<not> fault s \<longrightarrow> read s < decoded s"
  shows "in_order input (step a s)"
proof (cases "fault s")
  case True
  then show ?thesis using assms(2) by (simp add: step_def)
next
  case False
  show ?thesis
  proof (cases a)
    case Worker
    then show ?thesis
      using assms(2) False worker_keeps_shown[of s]
      by (simp add: step_def in_order_def shown_count_def)
  next
    case (Main due evs)
    then have "mpc s = M165 \<Longrightarrow> read s < decoded s"
      using assms(3) False by simp
    then have "in_order input (presentation due evs s)"
      using assms(1,2) by (intro in_order_main)
    then show ?thesis
      using Main False by (simp add: step_def)
  qed
qed

lemma in_order_run:
  "inv n input opened s \<Longrightarrow> in_order input s \<Longrightarrow> no_underrun sched s \<Longrightarrow>
     in_order input (run sched s)"
proof (induction sched arbitrary: s)
  case Nil
  then show ?case by (simp add: run_Nil)
next
  case (Cons a sched)
  have "in_order input (step a s)"
    using Cons.prems by (intro in_order_step) simp_all
  moreover have "inv n input opened (step a s)"
    using Cons.prems(1) by (rule inv_step)
  moreover have "no_underrun sched (step a s)"
    using Cons.prems(3) by simp
  ultimately show ?case
    using Cons.IH by (simp add: run_Cons)
qed

text \<open>
  What holds of the order: as long as no display is taken with \<open>read = decoded\<close> or beyond,
  the pictures shown are the first \<open>shown_count\<close> pictures the worker was handed, in that
  order, and all of them have been counted.
\<close>

lemma shown_is_prefix_without_underrun:
  assumes "no_underrun sched (init n input opened)"
  shows "shown (run sched (init n input opened))
       = map Some (take (shown_count (run sched (init n input opened))) (frames 0 input))
     \<and> shown_count (run sched (init n input opened)) \<le> decoded (run sched (init n input opened))
     \<and> decoded (run sched (init n input opened)) \<le> length (frames 0 input)"
proof -
  have i: "inv n input opened (run sched (init n input opened))"
    by (rule inv_reach)
  have o: "in_order input (run sched (init n input opened))"
    using inv_init in_order_init assms by (rule in_order_run)
  have "decoded (run sched (init n input opened)) \<le> length (frames 0 input)"
    using i by (simp add: inv_def inv_feed_def)
  then show ?thesis
    using o by (simp add: in_order_def)
qed

text \<open>
  C2. The pictures shown should be exactly the pictures decoded, in order, none skipped and
  none shown twice. The loop has no guard \<open>read < decoded\<close> (see C1). With two slots and
  three pictures, when the worker does not get to decode the third picture in time, the
  loop shows the pictures 7 and 8, finds \<open>read = decoded = 2\<close> with \<open>ended\<close> not set, and
  shows slot \<open>2 mod 2 = 0\<close>, which still holds picture 7: two pictures were decoded and
  three shown, the first of them twice.
\<close>

theorem loop_shows_first_picture_again:
  "pictures 0 three_frames = [7, 8, 9]
   \<and> decoded (run third_display (init 2 three_frames True)) = 2
   \<and> buffer (run third_display (init 2 three_frames True)) = [Some 7, Some 8]
   \<and> \<not> ended (run third_display (init 2 three_frames True))
   \<and> shown (run third_display (init 2 three_frames True)) = [Some 7, Some 8, Some 7]"
  by (simp add: third_display_def eval_defs)

section \<open>A stream without pictures\<close>

lemma idle_init: "0 < n \<Longrightarrow> idle input (init n input opened)"
  by (simp add: idle_def init_def priming_def)

lemma idle_worker:
  assumes "idle input s" and "no_frames input"
  shows "idle input (GetVideoFrameThread s)
     \<and> (wpc s \<noteq> WReturned \<longrightarrow> zleft (GetVideoFrameThread s) < zleft s)
     \<and> (wpc s = WReturned \<longrightarrow> GetVideoFrameThread s = s)"
proof (cases "wpc s")
  case W25
  then have r: "read_rc s = 0" and p: "pFormatCtx s = input"
    using assms(1) by (simp_all add: idle_def)
  show ?thesis
  proof (cases input)
    case Nil
    then show ?thesis
      using assms(1) W25 p
      by (auto simp add: idle_def priming_def worker_defs zleft_def not_decodes_at_eof ret_at_eof)
  next
    case (Cons q qs)
    then have "ret q \<noteq> 0" and "\<not> decodes 0 q"
      using assms(2) by (simp_all add: no_frames_def)
    then show ?thesis
      using assms(1) W25 p Cons
      by (auto simp add: idle_def priming_def worker_defs zleft_def)
  qed
next
  case W23
  then show ?thesis
    using assms(1) by (auto simp add: idle_def priming_def worker_defs zleft_def)
next
  case W44
  then show ?thesis
    using assms(1) by (auto simp add: idle_def priming_def worker_defs zleft_def)
next
  case W46
  then show ?thesis
    using assms(1) by (auto simp add: idle_def priming_def worker_defs zleft_def)
next
  case W69
  then show ?thesis
    using assms(1) by (auto simp add: idle_def priming_def worker_defs zleft_def)
next
  case WReturned
  then show ?thesis
    using assms(1) by (auto simp add: idle_def priming_def worker_defs zleft_def)
qed (use assms(1) in \<open>simp_all add: idle_def\<close>)

lemma idle_main:
  assumes "idle input s" and "mpc s = M161 \<longrightarrow> ended s"
  shows "idle input (presentation due evs s) \<and> zleft (presentation due evs s) = zleft s"
proof (cases "mpc s")
  case M151
  then show ?thesis
    using assms by (auto simp add: idle_def priming_def presentation_def zleft_def)
next
  case M154
  then show ?thesis
    using assms by (auto simp add: idle_def priming_def presentation_def zleft_def)
next
  case M161
  then show ?thesis
    using assms by (auto simp add: idle_def priming_def presentation_def zleft_def)
next
  case M161e
  then show ?thesis
    using assms by (auto simp add: idle_def priming_def presentation_def zleft_def)
next
  case MReturned
  then show ?thesis
    using assms by (auto simp add: idle_def priming_def presentation_def zleft_def)
qed (use assms(1) in \<open>simp_all add: idle_def\<close>)

lemma idle_run:
  "idle input s \<Longrightarrow> no_frames input \<Longrightarrow> tests_after_end sched s \<Longrightarrow>
     idle input (run sched s)
     \<and> (zleft s \<le> count_list sched Worker \<longrightarrow> wpc (run sched s) = WReturned)"
proof (induction sched arbitrary: s)
  case Nil
  have "wpc s = WReturned" if "zleft s = 0"
    using that Nil.prems(1) by (cases "wpc s") (simp_all add: zleft_def idle_def split: if_splits)
  then show ?case
    using Nil.prems(1) by (simp add: run_Nil)
next
  case (Cons a sched)
  have nf: "\<not> fault s"
    using Cons.prems(1) by (simp add: idle_def)
  have t: "tests_after_end sched (step a s)"
    using Cons.prems(3) by simp
  show ?case
  proof (cases a)
    case Worker
    then have st: "step a s = GetVideoFrameThread s"
      using nf by (simp add: step_def)
    note w = idle_worker[OF Cons.prems(1,2)]
    have i: "idle input (step a s)"
      using st w by simp
    have "zleft (step a s) \<le> count_list sched Worker"
      if "zleft s \<le> count_list (a # sched) Worker"
    proof (cases "wpc s = WReturned")
      case True
      then have "zleft (step a s) = 0"
        using st w by (simp add: zleft_def)
      then show ?thesis by simp
    next
      case False
      then have "zleft (step a s) < zleft s"
        using st w by simp
      then show ?thesis
        using that Worker by simp
    qed
    then show ?thesis
      using Cons.IH[OF i Cons.prems(2) t] by (simp add: run_Cons)
  next
    case (Main due evs)
    then have st: "step a s = presentation due evs s"
      using nf by (simp add: step_def)
    have e: "mpc s = M161 \<longrightarrow> ended s"
      using Cons.prems(3) Main nf by simp
    have i: "idle input (step a s)" and z: "zleft (step a s) = zleft s"
      using st idle_main[OF Cons.prems(1) e, of due evs] by simp_all
    show ?thesis
      using Cons.IH[OF i Cons.prems(2) t] z Main by (simp add: run_Cons)
  qed
qed

lemma idle_exit:
  assumes "idle input s" and "wpc s = WReturned"
  shows "exit_code (run [Main d e, Main True evs, Main d' e', Main d'' e''] s) = Some 0
     \<and> shown (run [Main d e, Main True evs, Main d' e', Main d'' e''] s) = []
     \<and> read (run [Main d e, Main True evs, Main d' e', Main d'' e''] s) = 0
     \<and> decoded (run [Main d e, Main True evs, Main d' e', Main d'' e''] s) = 0
     \<and> filled (run [Main d e, Main True evs, Main d' e', Main d'' e''] s)
     \<and> ended (run [Main d e, Main True evs, Main d' e', Main d'' e''] s)"
proof -
  have f: "\<not> fault s" "decoded s = 0" "read s = 0" "shown s = []" "filled s" "ended s"
    using assms by (auto simp add: idle_def priming_def)
  have "mpc s = M151 \<or> mpc s = M154 \<or> mpc s = M161 \<or> mpc s = M161e \<or> mpc s = MReturned"
    using assms(1) by (simp add: idle_def)
  then consider "mpc s = M151" | "mpc s = M154" | "mpc s = M161" | "mpc s = M161e"
    | "mpc s = MReturned"
    by blast
  then show ?thesis
  proof cases
    case 1
    then show ?thesis
      using f by (simp add: run_def step_def presentation_def exit_code_def)
  next
    case 2
    then show ?thesis
      using f by (cases d) (simp_all add: run_def step_def presentation_def exit_code_def)
  next
    case 3
    then show ?thesis
      using f by (simp add: run_def step_def presentation_def exit_code_def)
  next
    case 4
    then show ?thesis
      using f by (simp add: run_def step_def presentation_def exit_code_def)
  next
    case 5
    then show ?thesis
      using f by (simp add: run_def step_def presentation_def exit_code_def)
  qed
qed

text \<open>
  C10, as stated: a stream whose first read reports end of file is played by showing nothing
  and returning 0. With a frame rate below 1 the buffer has no slot: the worker never reads,
  \<open>ended\<close> is never set, and the loop divides by zero at line 165. With one slot, when the
  loop takes its exit test after \<open>filled\<close> and before \<open>ended\<close> has been set, it shows the
  empty slot, \<open>read\<close> becomes 1 while \<open>decoded\<close> stays 0, and the test can no longer
  succeed while the window is open.
\<close>

theorem empty_stream_can_end_otherwise:
  "fault (run zero_slots (init 0 [] True))
   \<and> exit_code (run zero_slots (init 0 [] True)) = None
   \<and> shown (run early_test (init 1 [] True)) = [None]
   \<and> read (run early_test (init 1 [] True)) = 1
   \<and> decoded (run early_test (init 1 [] True)) = 0
   \<and> ended (run early_test (init 1 [] True))
   \<and> isOpen (run early_test (init 1 [] True))
   \<and> exit_code (run early_test (init 1 [] True)) = None"
  by (simp add: zero_slots_def early_test_def exit_code_def eval_defs)

text \<open>
  C10, amended: with at least one slot, in every schedule in which the loop takes its exit
  test only after the worker has set \<open>ended\<close> and which gives the worker six steps, four
  more rounds of \<open>main\<close> (the second with the pacing test due) end the program with exit
  code 0, nothing shown, \<open>read = decoded = 0\<close>, \<open>filled\<close> and \<open>ended\<close>.
\<close>

theorem empty_stream_exits_with_nothing_shown:
  assumes "0 < n" and "no_frames input" and "tests_after_end sched (init n input opened)"
    and "6 \<le> count_list sched Worker"
  shows "exit_code (run (sched @ [Main d e, Main True evs, Main d' e', Main d'' e''])
           (init n input opened)) = Some 0
     \<and> shown (run (sched @ [Main d e, Main True evs, Main d' e', Main d'' e''])
           (init n input opened)) = []
     \<and> read (run (sched @ [Main d e, Main True evs, Main d' e', Main d'' e''])
           (init n input opened)) = 0
     \<and> decoded (run (sched @ [Main d e, Main True evs, Main d' e', Main d'' e''])
           (init n input opened)) = 0
     \<and> filled (run (sched @ [Main d e, Main True evs, Main d' e', Main d'' e''])
           (init n input opened))
     \<and> ended (run (sched @ [Main d e, Main True evs, Main d' e', Main d'' e''])
           (init n input opened))"
proof -
  have i: "idle input (init n input opened)"
    using assms(1) by (rule idle_init)
  have "zleft (init n input opened) = 6"
    by (simp add: zleft_def init_def)
  then have "idle input (run sched (init n input opened))"
    and "wpc (run sched (init n input opened)) = WReturned"
    using idle_run[OF i assms(2,3)] assms(4) by simp_all
  then show ?thesis
    unfolding run_append by (rule idle_exit)
qed

theorem empty_stream_exits_with_nothing_shown_witness:
  "(0::nat) < 5 \<and> no_frames [] \<and> tests_after_end worker_ends_first (init 5 [] True)
   \<and> 6 \<le> count_list worker_ends_first Worker
   \<and> exit_code (run (worker_ends_first @ [Main True [], Main True [], Main True [], Main True []])
         (init 5 [] True)) = Some 0
   \<and> shown (run (worker_ends_first @ [Main True [], Main True [], Main True [], Main True []])
         (init 5 [] True)) = []
   \<and> read (run (worker_ends_first @ [Main True [], Main True [], Main True [], Main True []])
         (init 5 [] True)) = 0
   \<and> decoded (run (worker_ends_first @ [Main True [], Main True [], Main True [], Main True []])
         (init 5 [] True)) = 0"
proof -
  have a: "(0::nat) < 5" by simp
  have b: "no_frames []" by (simp add: no_frames_def)
  have c: "tests_after_end worker_ends_first (init 5 [] True)"
    by (simp add: worker_ends_first_def eval_defs)
  have d: "6 \<le> count_list worker_ends_first Worker"
    by (simp add: worker_ends_first_def)
  show ?thesis
    using a b c d
      empty_stream_exits_with_nothing_shown[OF a b c d, of True "[]" "[]" True "[]" True "[]"]
    by simp
qed

end
